theory Spec2Isabelle
  imports Complex_Main "HOL-Library.Word"
begin

section \<open>Geometry primitives of db/geo/2d.cpp\<close>

text \<open>
  The C++ type \<open>double\<close> is represented by \<^typ>\<open>real\<close>: the functions below only
  compare, add, subtract, multiply and divide coordinates, and every division whose
  divisor the source does not guard is made explicit in the result type.
\<close>

record Point =
  p_x :: real
  p_y :: real

record Box =
  b_min :: Point
  b_max :: Point

definition mkPoint :: "real \<Rightarrow> real \<Rightarrow> Point" where
  "mkPoint a b = \<lparr>p_x = a, p_y = b\<rparr>"

definition mkBox :: "Point \<Rightarrow> Point \<Rightarrow> Box" where
  "mkBox lo hi = \<lparr>b_min = lo, b_max = hi\<rparr>"

text \<open>\<open>Box::between\<close> and the three-argument \<open>Box::inside\<close>.\<close>

definition between :: "real \<Rightarrow> real \<Rightarrow> real \<Rightarrow> real \<Rightarrow> bool" where
  "between lo hi val fudge \<longleftrightarrow> val + fudge \<ge> lo \<and> val \<le> hi + fudge"

definition inside :: "Box \<Rightarrow> Point \<Rightarrow> real \<Rightarrow> bool" where
  "inside b p fudge \<longleftrightarrow>
     between (p_x (b_min b)) (p_x (b_max b)) (p_x p) fudge \<and>
     between (p_y (b_min b)) (p_y (b_max b)) (p_y p) fudge"

definition area :: "Box \<Rightarrow> real" where
  "area b = (p_x (b_max b) - p_x (b_min b)) * (p_y (b_max b) - p_y (b_min b))"

text \<open>
  \<open>Box::mid\<close>: the two \<open>assert\<close>s throw, the \<open>bool\<close> result with the out-parameter
  \<open>res\<close> is an option.
\<close>

datatype geo_error =
    AssertionFailed
  | OutOfRange
  | DivisionByZero
  | UserError nat

definition mid :: "real \<Rightarrow> real \<Rightarrow> real \<Rightarrow> real \<Rightarrow> bool \<Rightarrow> geo_error + real option" where
  "mid amin amax bmin bmax want_min =
     (if \<not> amin \<le> amax then Inl AssertionFailed
      else if \<not> bmin \<le> bmax then Inl AssertionFailed
      else if amin < bmin then
        (if amax < bmin then Inr None
         else Inr (Some (if want_min then bmin else amax)))
      else if amin > bmax then Inr None
      else Inr (Some (if want_min then amin else bmax)))"

text \<open>
  \<open>Box::intersects\<close>. The four calls to \<open>mid\<close> are evaluated left to right and the
  \<open>||\<close> chain stops at the first one that returns false. The final quotient is a
  floating-point division; a zero divisor (both boxes of area zero) yields an infinity or
  a NaN in C++, reported here as \<open>DivisionByZero\<close>.
\<close>

definition intersects :: "Box \<Rightarrow> Box \<Rightarrow> geo_error + real" where
  "intersects a b =
    (case mid (p_x (b_min a)) (p_x (b_max a)) (p_x (b_min b)) (p_x (b_max b)) True of
       Inl e \<Rightarrow> Inl e
     | Inr None \<Rightarrow> Inr 0
     | Inr (Some minx) \<Rightarrow>
    (case mid (p_x (b_min a)) (p_x (b_max a)) (p_x (b_min b)) (p_x (b_max b)) False of
       Inl e \<Rightarrow> Inl e
     | Inr None \<Rightarrow> Inr 0
     | Inr (Some maxx) \<Rightarrow>
    (case mid (p_y (b_min a)) (p_y (b_max a)) (p_y (b_min b)) (p_y (b_max b)) True of
       Inl e \<Rightarrow> Inl e
     | Inr None \<Rightarrow> Inr 0
     | Inr (Some miny) \<Rightarrow>
    (case mid (p_y (b_min a)) (p_y (b_max a)) (p_y (b_min b)) (p_y (b_max b)) False of
       Inl e \<Rightarrow> Inl e
     | Inr None \<Rightarrow> Inr 0
     | Inr (Some maxy) \<Rightarrow>
        (let intersection = mkBox (mkPoint minx miny) (mkPoint maxx maxy);
             avg = (area a + area b) / 2
         in if avg = 0 then Inl DivisionByZero
            else Inr (area intersection / avg))))))"

text \<open>
  What the specification calls the intersection area of two boxes: the area of the set
  of points that lie in both. It is used only to state the claim about
  \<open>Box::intersects\<close>, not by the program.
\<close>

definition well_formed :: "Box \<Rightarrow> bool" where
  "well_formed b \<longleftrightarrow> p_x (b_min b) \<le> p_x (b_max b) \<and> p_y (b_min b) \<le> p_y (b_max b)"

definition overlap_len :: "real \<Rightarrow> real \<Rightarrow> real \<Rightarrow> real \<Rightarrow> real" where
  "overlap_len amin amax bmin bmax = max 0 (min amax bmax - max amin bmin)"

definition spec_intersection_area :: "Box \<Rightarrow> Box \<Rightarrow> real" where
  "spec_intersection_area a b =
     overlap_len (p_x (b_min a)) (p_x (b_max a)) (p_x (b_min b)) (p_x (b_max b)) *
     overlap_len (p_y (b_min a)) (p_y (b_max a)) (p_y (b_min b)) (p_y (b_max b))"

definition spec_intersects_ratio :: "Box \<Rightarrow> Box \<Rightarrow> real" where
  "spec_intersects_ratio a b = spec_intersection_area a b / ((area a + area b) / 2)"

subsection \<open>Polygon::contains\<close>

text \<open>
  The test the source performs on one edge \<open>p1 -> p2\<close> when \<open>fudge > 0\<close>: whether the
  edge comes close to the error box around the point (each of the source's
  \<open>return 0\<close> statements is one disjunct, in the source's order).
\<close>

definition fudge_hit :: "Box \<Rightarrow> Point \<Rightarrow> Point \<Rightarrow> bool" where
  "fudge_hit fb p1 p2 \<longleftrightarrow>
     (p_y (b_min fb) \<le> max (p_y p1) (p_y p2) \<and>
      p_y (b_max fb) \<ge> min (p_y p1) (p_y p2) \<and>
      p_x (b_min fb) \<le> max (p_x p1) (p_x p2) \<and>
      p_x (b_max fb) \<ge> min (p_x p1) (p_x p2)) \<and>
     (inside fb p1 0 \<or> inside fb p2 0 \<or>
      (p_y p1 \<noteq> p_y p2 \<and>
        (let invSlope = (p_x p2 - p_x p1) / (p_y p2 - p_y p1);
             xintersT = (p_y (b_max fb) - p_y p1) * invSlope + p_x p1;
             xintersB = (p_y (b_min fb) - p_y p1) * invSlope + p_x p1
         in (p_x (b_min fb) \<le> xintersT \<and> p_x (b_max fb) \<ge> xintersT) \<or>
            (p_x (b_min fb) \<le> xintersB \<and> p_x (b_max fb) \<ge> xintersB))) \<or>
      (p_x p1 \<noteq> p_x p2 \<and>
        (let slope = (p_y p2 - p_y p1) / (p_x p2 - p_x p1);
             yintersR = (p_x p1 - p_x (b_max fb)) * slope + p_y p1;
             yintersL = (p_x p1 - p_x (b_min fb)) * slope + p_y p1
         in (p_y (b_min fb) \<le> yintersR \<and> p_y (b_max fb) \<ge> yintersR) \<or>
            (p_y (b_min fb) \<le> yintersL \<and> p_y (b_max fb) \<ge> yintersL))))"

text \<open>The "normal intersection test" of the ray-casting loop for one edge.\<close>

definition ray_crosses :: "Point \<Rightarrow> Point \<Rightarrow> Point \<Rightarrow> bool" where
  "ray_crosses p p1 p2 \<longleftrightarrow>
     p_y p > min (p_y p1) (p_y p2) \<and>
     p_y p \<le> max (p_y p1) (p_y p2) \<and>
     p_x p \<le> max (p_x p1) (p_x p2) \<and>
     p_y p1 \<noteq> p_y p2 \<and>
     (let xinters = (p_y p - p_y p1) * (p_x p2 - p_x p1) / (p_y p2 - p_y p1) + p_x p1
      in p_x p1 = p_x p2 \<or> p_x p \<le> xinters)"

text \<open>
  The loop \<open>for (int i = 1; i <= size(); i++)\<close> of \<open>Polygon::contains\<close>, with the
  loop variables \<open>i\<close>, \<open>p1\<close> and \<open>counter\<close> as arguments. The result is the
  \<open>int\<close> the function returns.
\<close>

function contains_loop ::
  "Point list \<Rightarrow> Point \<Rightarrow> real \<Rightarrow> Box \<Rightarrow> nat \<Rightarrow> Point \<Rightarrow> nat \<Rightarrow> int" where
  "contains_loop pts p fudge fb i p1 counter =
     (if i \<le> length pts then
        (let p2 = pts ! (i mod length pts) in
         if fudge > 0 \<and> fudge_hit fb p1 p2 then 0
         else contains_loop pts p fudge fb (i + 1) p2
                (if ray_crosses p p1 p2 then counter + 1 else counter))
      else if counter mod 2 = 0 then -1 else 1)"
  by pat_completeness auto
termination
  by (relation "measure (\<lambda>(pts, p, fudge, fb, i, p1, counter). length pts + 1 - i)") auto

declare contains_loop.simps [simp del]

text \<open>
  \<open>Polygon::contains(p, fudge)\<close>. The first statement after the error box reads
  \<open>_points[0]\<close>, which is outside the vector when the polygon has no vertex.
\<close>

definition contains :: "Point list \<Rightarrow> Point \<Rightarrow> real \<Rightarrow> geo_error + int" where
  "contains pts p fudge =
     (let fudgeBox = mkBox (mkPoint (p_x p - fudge) (p_y p - fudge))
                           (mkPoint (p_x p + fudge) (p_y p + fudge))
      in if pts = [] then Inl OutOfRange
         else Inr (contains_loop pts p fudge fudgeBox 1 (pts ! 0) 0))"

text \<open>
  The edges the loop visits, in order: vertex \<open>i - 1\<close> to vertex \<open>i mod size\<close> for
  \<open>i = 1 .. size\<close>, and the number of them the ray from \<open>p\<close> crosses.
\<close>

definition edges :: "Point list \<Rightarrow> (Point \<times> Point) list" where
  "edges pts = zip pts (rotate1 pts)"

definition crossings :: "Point \<Rightarrow> Point list \<Rightarrow> nat" where
  "crossings p pts = length (filter (\<lambda>(p1, p2). ray_crosses p p1 p2) (edges pts))"


section \<open>The cursor factory Geo2dType::newCursor\<close>

datatype GeoDistType = GEO_PLAIN | GEO_SPHERE

text \<open>\<open>numeric_limits<double>::max()\<close>.\<close>

definition DBL_MAX :: real where
  "DBL_MAX = 2 ^ 1024 - 2 ^ 971"

text \<open>
  What \<open>newCursor\<close> reads from one element of the query document. The element has a
  field name; its value is either not an object, or an object whose first element carries
  the operator \<open>getGtLtOp\<close> finds there:
  \<^item> for \<open>opNEAR\<close>: the field name of that first element (\<open>$near\<close> followed by a
    suffix), the point it holds, the third member of the array when there is one and it
    is a number, and the sibling field \<open>$maxDistance\<close> when it is a number;
  \<^item> for \<open>opWITHIN\<close>: nothing when the first element is not an object, otherwise the
    field name of the shape, whether the shape is an object, and the shape itself;
  \<^item> any other operator.
\<close>

datatype 'o geo_value =
    NotAnObject
  | NearQuery string Point "real option" "real option"
  | WithinQuery "(string \<times> bool \<times> 'o) option"
  | OtherOperator

record 'o query_elem =
  qe_fieldName :: string
  qe_value :: "'o geo_value"

text \<open>
  The cursor \<open>newCursor\<close> builds, identified by the constructor it calls and the
  arguments it passes: \<open>GeoSearch(this, Point(e), numWanted, query, maxDistance, type)\<close>
  run by \<open>exec()\<close> and wrapped in a \<open>GeoSearchCursor\<close>, or one of the three region
  browsers over the shape object.
\<close>

datatype 'o Cursor =
    GeoSearchCursor Point "32 word" real GeoDistType
  | GeoCircleBrowse 'o string
  | GeoBoxBrowse 'o
  | GeoPolygonBrowse 'o

text \<open>The loop over the elements of the query, after \<open>numWanted\<close> has been adjusted.\<close>

fun newCursor_scan ::
  "string \<Rightarrow> 'o query_elem list \<Rightarrow> 32 word \<Rightarrow> geo_error + 'o Cursor" where
  "newCursor_scan geo [] numWanted = Inl (UserError 13042)"
| "newCursor_scan geo (e # rest) numWanted =
     (if geo \<noteq> qe_fieldName e then newCursor_scan geo rest numWanted
      else case qe_value e of
        NotAnObject \<Rightarrow> newCursor_scan geo rest numWanted
      | NearQuery fieldName pt third maxDist \<Rightarrow>
          (let suffix = drop 5 fieldName in
           if suffix \<noteq> [] \<and> suffix \<noteq> ''Sphere'' then Inl (UserError 13464)
           else
             let type = (if suffix = [] then GEO_PLAIN else GEO_SPHERE);
                 maxDistance = DBL_MAX;
                 maxDistance = (case third of Some r \<Rightarrow> r | None \<Rightarrow> maxDistance);
                 maxDistance = (case maxDist of Some r \<Rightarrow> r | None \<Rightarrow> maxDistance)
             in Inr (GeoSearchCursor pt numWanted maxDistance type))
      | WithinQuery None \<Rightarrow> Inl (UserError 13057)
      | WithinQuery (Some (type, isObj, shape)) \<Rightarrow>
          (if take 7 type = ''$center'' then
             (if isObj then Inr (GeoCircleBrowse shape type) else Inl (UserError 13059))
           else if type = ''$box'' then
             (if isObj then Inr (GeoBoxBrowse shape) else Inl (UserError 13065))
           else if take 5 type = ''$poly'' then
             (if isObj then Inr (GeoPolygonBrowse shape) else Inl (UserError 14029))
           else Inl (UserError 13058))
      | OtherOperator \<Rightarrow> newCursor_scan geo rest numWanted)"

text \<open>
  \<open>Geo2dType::newCursor(query, order, numWanted)\<close>. \<open>numWanted\<close> is a C++ \<open>int\<close>,
  a 32-bit two's complement word; \<open>numWanted * -1\<close> is the product in that width.
  \<open>order\<close> is not used by the source.
\<close>

definition newCursor ::
  "string \<Rightarrow> 'o query_elem list \<Rightarrow> 'ord \<Rightarrow> 32 word \<Rightarrow> geo_error + 'o Cursor" where
  "newCursor geo query order numWanted =
     (let numWanted = (if sint numWanted < 0 then numWanted * (- 1)
                       else if numWanted = 0 then 100
                       else numWanted)
      in newCursor_scan geo query numWanted)"

section \<open>The accumulator framework and the nearest-point holder\<close>

text \<open>
  A record locator (\<open>DiskLoc\<close>) is a number. A key node of the index pairs a key with
  the locator of the document it belongs to; the type \<open>'k\<close> stands for the key object
  as \<open>GeoAccumulator::_seen\<close> identifies it (the address \<open>node.key.objdata()\<close>).
\<close>

type_synonym DiskLoc = nat

record 'k KeyNode =
  kn_key :: 'k
  kn_recordLoc :: DiskLoc

text \<open>
  \<open>GeoPoint\<close>. The document \<open>_o\<close> is \<open>node.recordLoc.obj()\<close>, a function of
  \<open>_loc\<close>, and is not stored separately.
\<close>

record 'k GeoPoint =
  gp_key :: 'k
  gp_loc :: DiskLoc
  gp_exactDistance :: real
  gp_exactWithin :: bool

text \<open>
  What the accumulator uses from files that are not part of the sources, and from the
  storage layer, which a query only reads:
  \<^item> \<open>Point::distance\<close>, \<open>Point::distanceWithin\<close> and \<open>spheredist_deg\<close>;
  \<^item> \<open>Point(_g, GeoHash(node.key.firstElement()))\<close>, the representative point of the
    cell a key is hashed to;
  \<^item> \<open>_g->getKeys(node.recordLoc.obj(), locs)\<close>, each location read as a \<open>Point\<close>:
    all locations of the document at a locator;
  \<^item> the compiled filter \<open>_matcher\<close>, absent when the filter is empty, whose
    \<open>matchesWithSingleKeyIndex\<close> returns whether the document matches and whether it
    had to be loaded (\<open>details.loadedObject\<close>);
  \<^item> the index's \<open>_error\<close> and \<open>_errorSphere\<close>.
\<close>

record 'k geo_env =
  e_distance :: "Point \<Rightarrow> Point \<Rightarrow> real"
  e_distanceWithin :: "Point \<Rightarrow> Point \<Rightarrow> real \<Rightarrow> bool"
  e_spheredist_deg :: "Point \<Rightarrow> Point \<Rightarrow> real"
  e_keyPoint :: "'k \<Rightarrow> Point"
  e_getKeys :: "DiskLoc \<Rightarrow> Point list"
  e_matcher :: "('k \<Rightarrow> DiskLoc \<Rightarrow> bool \<times> bool) option"
  e_error :: real
  e_errorSphere :: real

record 'k GeoAccumulator =
  acc_seen :: "('k \<times> DiskLoc) set"
  acc_matched :: "DiskLoc \<rightharpoonup> bool"
  acc_lookedAt :: int
  acc_objectsLoaded :: int
  acc_found :: int

text \<open>
  \<open>GeoAccumulator::add\<close>. The two pure virtual members \<open>checkDistance\<close> and
  \<open>addSpecific\<close> are arguments; \<open>checkDistance\<close> returns its \<open>bool\<close> and the value
  it leaves in \<open>d\<close>. The last two statements, \<open>addSpecific(node, d, newDoc)\<close> and
  \<open>_found++\<close>, are \<open>add_accept\<close>.
\<close>

definition add_accept ::
  "('k KeyNode \<Rightarrow> real \<Rightarrow> bool \<Rightarrow> ('k, 'z) GeoAccumulator_scheme
      \<Rightarrow> geo_error + ('k, 'z) GeoAccumulator_scheme)
   \<Rightarrow> 'k KeyNode \<Rightarrow> real \<Rightarrow> bool \<Rightarrow> ('k, 'z) GeoAccumulator_scheme
   \<Rightarrow> geo_error + ('k, 'z) GeoAccumulator_scheme" where
  "add_accept addSpecific node d newDoc st =
     (case addSpecific node d newDoc st of
        Inl e \<Rightarrow> Inl e
      | Inr st' \<Rightarrow> Inr (st'\<lparr>acc_found := acc_found st' + 1\<rparr>))"

definition add ::
  "'k geo_env
   \<Rightarrow> ('k KeyNode \<Rightarrow> ('k, 'z) GeoAccumulator_scheme \<Rightarrow> geo_error + bool \<times> real)
   \<Rightarrow> ('k KeyNode \<Rightarrow> real \<Rightarrow> bool \<Rightarrow> ('k, 'z) GeoAccumulator_scheme
      \<Rightarrow> geo_error + ('k, 'z) GeoAccumulator_scheme)
   \<Rightarrow> 'k KeyNode \<Rightarrow> ('k, 'z) GeoAccumulator_scheme
   \<Rightarrow> geo_error + ('k, 'z) GeoAccumulator_scheme" where
  "add env checkDistance addSpecific node st =
     (if (kn_key node, kn_recordLoc node) \<in> acc_seen st then Inr st
      else
        let st = st\<lparr>acc_seen := insert (kn_key node, kn_recordLoc node) (acc_seen st),
                    acc_lookedAt := acc_lookedAt st + 1\<rparr>
        in case checkDistance node st of
             Inl e \<Rightarrow> Inl e
           | Inr (good_distance, d) \<Rightarrow>
               if \<not> good_distance then Inr st
               else case acc_matched st (kn_recordLoc node) of
                   None \<Rightarrow>
                     (case e_matcher env of
                        Some matches \<Rightarrow>
                          (let (good, loadedObject) = matches (kn_key node) (kn_recordLoc node);
                               st = (if loadedObject
                                     then st\<lparr>acc_objectsLoaded := acc_objectsLoaded st + 1\<rparr>
                                     else st)
                           in if \<not> good
                              then Inr (st\<lparr>acc_matched :=
                                            (acc_matched st)(kn_recordLoc node \<mapsto> False)\<rparr>)
                              else
                                let st = st\<lparr>acc_matched :=
                                              (acc_matched st)(kn_recordLoc node \<mapsto> True)\<rparr>;
                                    st = (if \<not> loadedObject
                                          then st\<lparr>acc_objectsLoaded :=
                                                    acc_objectsLoaded st + 1\<rparr>
                                          else st)
                                in add_accept addSpecific node d True st)
                      | None \<Rightarrow>
                          (let st = st\<lparr>acc_matched :=
                                        (acc_matched st)(kn_recordLoc node \<mapsto> True)\<rparr>;
                               st = st\<lparr>acc_objectsLoaded := acc_objectsLoaded st + 1\<rparr>
                           in add_accept addSpecific node d True st))
                 | Some False \<Rightarrow> Inr st
                 | Some True \<Rightarrow> add_accept addSpecific node d False st)"

subsection \<open>GeoHopper\<close>

record 'k GeoHopper = "'k GeoAccumulator" +
  h_max :: "32 word"
  h_near :: Point
  h_points :: "'k GeoPoint list"
  h_maxDistance :: real
  h_type :: GeoDistType
  h_distError :: real
  h_farthest :: real

text \<open>
  \<open>_points\<close> is a \<open>multiset\<close> of \<open>GeoPoint\<close> ordered by \<open>GeoPoint::operator<\<close>, which
  compares \<open>_exactDistance\<close>; it is kept as the list of its elements in iteration
  order. \<open>insert\<close> places a new element after the elements that are not greater.
\<close>

fun multiset_insert :: "'k GeoPoint \<Rightarrow> 'k GeoPoint list \<Rightarrow> 'k GeoPoint list" where
  "multiset_insert g [] = [g]"
| "multiset_insert g (h # hs) =
     (if gp_exactDistance g < gp_exactDistance h then g # h # hs
      else h # multiset_insert g hs)"

text \<open>The constructor \<open>GeoHopper(g, max, n, filter, maxDistance, type)\<close>.\<close>

definition GeoHopper_init ::
  "'k geo_env \<Rightarrow> 32 word \<Rightarrow> Point \<Rightarrow> real \<Rightarrow> GeoDistType \<Rightarrow> 'k GeoHopper" where
  "GeoHopper_init env maxWanted n maxDistance type =
     \<lparr>acc_seen = {}, acc_matched = Map.empty, acc_lookedAt = 0, acc_objectsLoaded = 0,
      acc_found = 0,
      h_max = maxWanted, h_near = n, h_points = [], h_maxDistance = maxDistance, h_type = type,
      h_distError = (if type = GEO_PLAIN then e_error env else e_errorSphere env),
      h_farthest = 0\<rparr>"

definition approxDistance :: "'k geo_env \<Rightarrow> 'k KeyNode \<Rightarrow> 'k GeoHopper \<Rightarrow> real" where
  "approxDistance env node st =
     (case h_type st of
        GEO_PLAIN \<Rightarrow> e_distance env (h_near st) (e_keyPoint env (kn_key node))
      | GEO_SPHERE \<Rightarrow> e_spheredist_deg env (h_near st) (e_keyPoint env (kn_key node)))"

definition checkDistance ::
  "'k geo_env \<Rightarrow> 'k KeyNode \<Rightarrow> 'k GeoHopper \<Rightarrow> geo_error + bool \<times> real" where
  "checkDistance env node st =
     (let d = approxDistance env node st in
      if \<not> d \<ge> 0 then Inl AssertionFailed
      else
        let good = (d \<le> h_maxDistance st + 2 * h_distError st
                    \<and> (length (h_points st) < unat (h_max st)
                        \<or> d \<le> h_farthest st + 2 * h_distError st))
        in Inr (good, d))"

text \<open>
  The distance of one location from the query point and whether it is within the
  maximum distance, as the \<open>switch\<close> in \<open>exactDistances\<close> computes them.
\<close>

definition exact_of :: "'k geo_env \<Rightarrow> 'k GeoHopper \<Rightarrow> Point \<Rightarrow> real \<times> bool" where
  "exact_of env st loc =
     (case h_type st of
        GEO_PLAIN \<Rightarrow> (e_distance env (h_near st) loc,
                      e_distanceWithin env (h_near st) loc (h_maxDistance st))
      | GEO_SPHERE \<Rightarrow> (let exactDistance = e_spheredist_deg env (h_near st) loc
                       in (exactDistance, exactDistance \<le> h_maxDistance st)))"

text \<open>The loop of \<open>exactDistances\<close> over the locations, on \<open>minDistance\<close> and \<open>eWithin\<close>.\<close>

fun exactDistances_loop ::
  "'k geo_env \<Rightarrow> 'k GeoHopper \<Rightarrow> Point list \<Rightarrow> real \<Rightarrow> bool \<Rightarrow> geo_error + real \<times> bool" where
  "exactDistances_loop env st [] minDistance eWithin = Inr (minDistance, eWithin)"
| "exactDistances_loop env st (loc # locs) minDistance eWithin =
     (let (exactDistance, exactWithin) = exact_of env st loc in
      if \<not> exactDistance \<ge> 0 then Inl AssertionFailed
      else if \<not> exactWithin then exactDistances_loop env st locs minDistance eWithin
      else if minDistance < 0 \<or> minDistance > exactDistance
           then exactDistances_loop env st locs exactDistance exactWithin
           else exactDistances_loop env st locs minDistance eWithin)"

definition exactDistances ::
  "'k geo_env \<Rightarrow> 'k KeyNode \<Rightarrow> 'k GeoHopper \<Rightarrow> geo_error + real \<times> 'k GeoHopper" where
  "exactDistances env node st =
     (case exactDistances_loop env st (e_getKeys env (kn_recordLoc node)) (- 1) False of
        Inl e \<Rightarrow> Inl e
      | Inr (minDistance, eWithin) \<Rightarrow>
          if minDistance \<ge> 0
          then Inr (minDistance,
                    st\<lparr>h_points := multiset_insert
                         \<lparr>gp_key = kn_key node, gp_loc = kn_recordLoc node,
                          gp_exactDistance = minDistance, gp_exactWithin = eWithin\<rparr>
                         (h_points st)\<rparr>)
          else Inr (minDistance, st))"

text \<open>
  \<open>while (numToErase-- > 0) _points.erase(--_points.end())\<close>, for the number of
  iterations the loop makes. Erasing from an empty set is outside the container.
\<close>

fun erase_last :: "nat \<Rightarrow> 'a list \<Rightarrow> geo_error + 'a list" where
  "erase_last 0 xs = Inr xs"
| "erase_last (Suc k) xs = (if xs = [] then Inl OutOfRange else erase_last k (butlast xs))"

text \<open>
  \<open>GeoHopper::addSpecific\<close>. \<open>int numToErase = _points.size() - _max\<close> is a
  difference of unsigned values converted to a 32-bit \<open>int\<close>. The last statement reads
  the last element of \<open>_points\<close>, which does not exist when the set is empty.
\<close>

definition addSpecific ::
  "'k geo_env \<Rightarrow> 'k KeyNode \<Rightarrow> real \<Rightarrow> bool \<Rightarrow> 'k GeoHopper \<Rightarrow> geo_error + 'k GeoHopper" where
  "addSpecific env node d newDoc st =
     (if \<not> newDoc then Inr st
      else case exactDistances env node st of
          Inl e \<Rightarrow> Inl e
        | Inr (maxDistance, st) \<Rightarrow>
            if maxDistance \<ge> 0 then
              (let numToErase = sint (word_of_nat (length (h_points st)) - h_max st :: 32 word)
               in case erase_last (nat numToErase) (h_points st) of
                    Inl e \<Rightarrow> Inl e
                  | Inr pts \<Rightarrow>
                      if pts = [] then Inl OutOfRange
                      else Inr (st\<lparr>h_points := pts,
                                    h_farthest := gp_exactDistance (last pts)\<rparr>))
            else Inr st)"

definition hopper_add :: "'k geo_env \<Rightarrow> 'k KeyNode \<Rightarrow> 'k GeoHopper \<Rightarrow> geo_error + 'k GeoHopper" where
  "hopper_add env = add env (checkDistance env) (addSpecific env)"

text \<open>
  The index scan of \<open>GeoSearch::exec\<close> hands key nodes to the hopper one at a time
  (\<open>BtreeLocation::checkCur\<close> calls \<open>add\<close>); \<open>hopper_run\<close> is the effect of the
  sequence of those calls. An exception ends the query.
\<close>

fun hopper_run :: "'k geo_env \<Rightarrow> 'k KeyNode list \<Rightarrow> 'k GeoHopper \<Rightarrow> geo_error + 'k GeoHopper" where
  "hopper_run env [] st = Inr st"
| "hopper_run env (node # nodes) st =
     (case hopper_add env node st of
        Inl e \<Rightarrow> Inl e
      | Inr st' \<Rightarrow> hopper_run env nodes st')"

text \<open>
  \<open>GeoSearchCursor\<close>: the iterators \<open>_cur\<close> and \<open>_end\<close> into the hopper's
  \<open>_points\<close> are the list of the elements between them.
\<close>

record 'k GeoSearchCursor_state =
  c_rest :: "'k GeoPoint list"
  c_nscanned :: int

definition cursor_ok :: "'k GeoSearchCursor_state \<Rightarrow> bool" where
  "cursor_ok c \<longleftrightarrow> c_rest c \<noteq> []"

definition cursor_init :: "'k GeoHopper \<Rightarrow> 'k GeoSearchCursor_state" where
  "cursor_init st =
     \<lparr>c_rest = h_points st, c_nscanned = (if h_points st \<noteq> [] then 1 else 0)\<rparr>"

definition cursor_advance :: "'k GeoSearchCursor_state \<Rightarrow> 'k GeoSearchCursor_state" where
  "cursor_advance c =
     (let c = c\<lparr>c_rest := tl (c_rest c)\<rparr>
      in if cursor_ok c then c\<lparr>c_nscanned := c_nscanned c + 1\<rparr> else c)"

text \<open>
  A client reads the cursor with \<open>while (c.ok()) { ... c.current() ...; c.advance(); }\<close>;
  \<open>cursor_emit\<close> is the sequence of points it sees.
\<close>

function cursor_emit :: "'k GeoSearchCursor_state \<Rightarrow> 'k GeoPoint list" where
  "cursor_emit c =
     (if cursor_ok c then hd (c_rest c) # cursor_emit (cursor_advance c) else [])"
  by pat_completeness auto
termination
  by (relation "measure (\<lambda>c. length (c_rest c))")
     (auto simp: cursor_ok_def cursor_advance_def Let_def)

declare cursor_emit.simps [simp del]

text \<open>
  The exact distances of the locations of a document that are within the maximum
  distance, the point \<open>exactDistances\<close> inserts for a key node (its distance is the
  least of them), and the exact distances of all locations of a document.
\<close>

definition within_dists :: "'k geo_env \<Rightarrow> 'k GeoHopper \<Rightarrow> DiskLoc \<Rightarrow> real list" where
  "within_dists env st loc = map fst (filter snd (map (exact_of env st) (e_getKeys env loc)))"

definition all_dists :: "'k geo_env \<Rightarrow> 'k GeoHopper \<Rightarrow> DiskLoc \<Rightarrow> real list" where
  "all_dists env st loc = map (\<lambda>l. fst (exact_of env st l)) (e_getKeys env loc)"

definition new_point :: "'k geo_env \<Rightarrow> 'k GeoHopper \<Rightarrow> 'k KeyNode \<Rightarrow> 'k GeoPoint" where
  "new_point env st node =
     \<lparr>gp_key = kn_key node, gp_loc = kn_recordLoc node,
      gp_exactDistance = Min (set (within_dists env st (kn_recordLoc node))),
      gp_exactWithin = True\<rparr>"

text \<open>
  The invariant of the hopper during a query that started in state \<open>st0\<close>: the
  constructor's arguments stay as they are, \<open>_points\<close> holds at most \<open>_max\<close> points in
  non-decreasing order of distance, no two for the same document, and every point held
  belongs to a matched document and carries the least distance of the document's
  locations that are within the maximum distance.
\<close>

definition hopper_inv :: "'k geo_env \<Rightarrow> 'k GeoHopper \<Rightarrow> 'k GeoHopper \<Rightarrow> bool" where
  "hopper_inv env st0 st \<longleftrightarrow>
     h_max st = h_max st0 \<and> h_near st = h_near st0 \<and>
     h_maxDistance st = h_maxDistance st0 \<and> h_type st = h_type st0 \<and>
     h_distError st = h_distError st0 \<and>
     length (h_points st) \<le> unat (h_max st) \<and>
     sorted (map gp_exactDistance (h_points st)) \<and>
     distinct (map gp_loc (h_points st)) \<and>
     (\<forall>g\<in>set (h_points st).
        acc_matched st (gp_loc g) = Some True \<and> gp_exactWithin g \<and>
        within_dists env st0 (gp_loc g) \<noteq> [] \<and>
        gp_exactDistance g = Min (set (within_dists env st0 (gp_loc g))))"

text \<open>
  The condition under which \<open>add\<close> puts a new point into \<open>_points\<close>: the pair of
  key and locator has not been seen, the approximate distance passes
  \<open>checkDistance\<close>, the document has not been matched before and matches the filter,
  and one of its locations is within the maximum distance.
\<close>

definition has_within :: "'k geo_env \<Rightarrow> 'k GeoHopper \<Rightarrow> DiskLoc \<Rightarrow> bool" where
  "has_within env st loc \<longleftrightarrow> list_ex (\<lambda>l. snd (exact_of env st l)) (e_getKeys env loc)"

definition accepts :: "'k geo_env \<Rightarrow> 'k KeyNode \<Rightarrow> 'k GeoHopper \<Rightarrow> bool" where
  "accepts env node st \<longleftrightarrow>
     (kn_key node, kn_recordLoc node) \<notin> acc_seen st \<and>
     (case checkDistance env node st of Inr (good, d) \<Rightarrow> good | Inl e \<Rightarrow> False) \<and>
     acc_matched st (kn_recordLoc node) = None \<and>
     (case e_matcher env of
        Some matches \<Rightarrow> fst (matches (kn_key node) (kn_recordLoc node))
      | None \<Rightarrow> True)"

definition qualifies :: "'k geo_env \<Rightarrow> 'k KeyNode \<Rightarrow> 'k GeoHopper \<Rightarrow> bool" where
  "qualifies env node st \<longleftrightarrow> accepts env node st \<and> has_within env st (kn_recordLoc node)"

fun qualifying :: "'k geo_env \<Rightarrow> 'k KeyNode list \<Rightarrow> 'k GeoHopper \<Rightarrow> nat" where
  "qualifying env [] st = 0"
| "qualifying env (node # nodes) st =
     (if qualifies env node st then 1 else 0) +
     (case hopper_add env node st of
        Inl e \<Rightarrow> 0
      | Inr st' \<Rightarrow> qualifying env nodes st')"

text \<open>
  A small collection for concrete runs: planar distance as the specification gives it
  (\<open>sqrt(dx^2 + dy^2)\<close>), \<open>distanceWithin\<close> as the comparison of that distance with the
  radius, four documents of which the third has two locations, no filter, and keys
  numbered \<open>100 * x + y\<close> for the cell at \<open>(x, y)\<close>.
\<close>

definition planar :: "Point \<Rightarrow> Point \<Rightarrow> real" where
  "planar p q = sqrt ((p_x p - p_x q)\<^sup>2 + (p_y p - p_y q)\<^sup>2)"

definition sample_locs :: "DiskLoc \<Rightarrow> Point list" where
  "sample_locs l =
     (if l = 1 then [mkPoint 50 50]
      else if l = 2 then [mkPoint 50 52]
      else if l = 3 then [mkPoint 50 59, mkPoint 50 47]
      else if l = 4 then [mkPoint 50 0]
      else [])"

definition sample_env :: "nat geo_env" where
  "sample_env =
     \<lparr>e_distance = planar,
      e_distanceWithin = (\<lambda>p q r. planar p q \<le> r),
      e_spheredist_deg = planar,
      e_keyPoint = (\<lambda>k. mkPoint (real (k div 100)) (real (k mod 100))),
      e_getKeys = sample_locs,
      e_matcher = None,
      e_error = 1,
      e_errorSphere = 1\<rparr>"

definition sample_nodes :: "nat KeyNode list" where
  "sample_nodes =
     [\<lparr>kn_key = 5050, kn_recordLoc = 1\<rparr>,
      \<lparr>kn_key = 5059, kn_recordLoc = 3\<rparr>,
      \<lparr>kn_key = 5052, kn_recordLoc = 2\<rparr>,
      \<lparr>kn_key = 5047, kn_recordLoc = 3\<rparr>,
      \<lparr>kn_key = 5000, kn_recordLoc = 4\<rparr>]"

section \<open>The region browsers\<close>

text \<open>
  \<open>GeoBrowse\<close> is a \<open>GeoAccumulator\<close> with the current point \<open>_cur\<close> and the queue
  \<open>_stack\<close> of points found and not yet handed out. \<open>_cur.isEmpty()\<close> tests the
  document \<open>_o\<close> of the point; a point made from a key node holds the indexed document,
  which is never the empty object, so that \<open>_cur\<close> is an option here and
  \<open>_cur._o = BSONObj()\<close> sets it to \<open>None\<close>.
\<close>

record 'k GeoBrowse = "'k GeoAccumulator" +
  br_cur :: "'k GeoPoint option"
  br_stack :: "'k GeoPoint list"

text \<open>The constructor \<open>GeoPoint(const KeyNode& node)\<close>.\<close>

definition GeoPoint_of :: "'k KeyNode \<Rightarrow> 'k GeoPoint" where
  "GeoPoint_of node =
     \<lparr>gp_key = kn_key node, gp_loc = kn_recordLoc node,
      gp_exactDistance = - 1, gp_exactWithin = False\<rparr>"

definition GeoBrowse_init :: "'k GeoBrowse" where
  "GeoBrowse_init =
     \<lparr>acc_seen = {}, acc_matched = Map.empty, acc_lookedAt = 0, acc_objectsLoaded = 0,
      acc_found = 0, br_cur = None, br_stack = []\<rparr>"

text \<open>\<open>GeoBrowse::addSpecific\<close>.\<close>

definition browse_addSpecific ::
  "'k KeyNode \<Rightarrow> real \<Rightarrow> bool \<Rightarrow> 'k GeoBrowse \<Rightarrow> geo_error + 'k GeoBrowse" where
  "browse_addSpecific node d newDoc st =
     (if \<not> newDoc then Inr st
      else if br_cur st = None then Inr (st\<lparr>br_cur := Some (GeoPoint_of node)\<rparr>)
      else Inr (st\<lparr>br_stack := br_stack st @ [GeoPoint_of node]\<rparr>))"

text \<open>
  The three browsers differ in \<open>checkDistance\<close>, which reads the query region, the key
  and the locations of the document, and no state of the accumulator: it is the
  argument \<open>cd\<close>.
\<close>

definition browse_add ::
  "'k geo_env \<Rightarrow> ('k KeyNode \<Rightarrow> geo_error + bool \<times> real) \<Rightarrow> 'k KeyNode \<Rightarrow> 'k GeoBrowse
   \<Rightarrow> geo_error + 'k GeoBrowse" where
  "browse_add env cd = add env (\<lambda>node st. cd node) browse_addSpecific"

text \<open>
  The part of \<open>GeoBrowse::advance\<close> before it asks for more points: \<open>_cur\<close> is emptied
  and, when the queue is not empty, replaced by its front.
\<close>

definition browse_advance :: "'k GeoBrowse \<Rightarrow> 'k GeoBrowse" where
  "browse_advance st =
     (let st = st\<lparr>br_cur := None\<rparr>
      in case br_stack st of
           [] \<Rightarrow> st
         | g # rest \<Rightarrow> st\<lparr>br_cur := Some g, br_stack := rest\<rparr>)"

text \<open>
  A query is a sequence of two kinds of steps: \<open>fillStack\<close> reaches a key node of the
  index and hands it to \<open>add\<close> (through \<open>BtreeLocation::checkCur\<close>), or the client
  calls \<open>advance\<close>. \<open>browse_run\<close> performs the steps and records, in order, the
  points that become \<open>_cur\<close>, which are the documents \<open>current()\<close> returns.
\<close>

datatype 'k browse_step = Scan "'k KeyNode" | Advance

fun browse_run ::
  "'k geo_env \<Rightarrow> ('k KeyNode \<Rightarrow> geo_error + bool \<times> real) \<Rightarrow> 'k browse_step list
   \<Rightarrow> 'k GeoBrowse \<Rightarrow> 'k GeoPoint list \<Rightarrow> geo_error + 'k GeoBrowse \<times> 'k GeoPoint list" where
  "browse_run env cd [] st emitted = Inr (st, emitted)"
| "browse_run env cd (Scan node # steps) st emitted =
     (case browse_add env cd node st of
        Inl e \<Rightarrow> Inl e
      | Inr st' \<Rightarrow>
          browse_run env cd steps st'
            (case (br_cur st, br_cur st') of
               (None, Some g) \<Rightarrow> emitted @ [g]
             | _ \<Rightarrow> emitted))"
| "browse_run env cd (Advance # steps) st emitted =
     (let st' = browse_advance st
      in browse_run env cd steps st'
           (case (br_stack st, br_cur st') of
              (g # rest, Some g') \<Rightarrow> emitted @ [g']
            | _ \<Rightarrow> emitted))"

text \<open>
  \<open>Box::onBoundary\<close> for a point and \<open>GeoBoxBrowse::checkDistance\<close> for the box
  \<open>want\<close> and the tolerance \<open>fudge\<close>; the source leaves \<open>d\<close> as it was passed in,
  which is 0.
\<close>

definition onBoundary1 :: "real \<Rightarrow> real \<Rightarrow> real \<Rightarrow> bool" where
  "onBoundary1 bound val fudge \<longleftrightarrow> val \<ge> bound - fudge \<and> val \<le> bound + fudge"

definition onBoundary :: "Box \<Rightarrow> Point \<Rightarrow> real \<Rightarrow> bool" where
  "onBoundary b p fudge \<longleftrightarrow>
     onBoundary1 (p_x (b_min b)) (p_x p) fudge \<or>
     onBoundary1 (p_x (b_max b)) (p_x p) fudge \<or>
     onBoundary1 (p_y (b_min b)) (p_y p) fudge \<or>
     onBoundary1 (p_y (b_max b)) (p_y p) fudge"

definition box_checkDistance ::
  "'k geo_env \<Rightarrow> Box \<Rightarrow> real \<Rightarrow> 'k KeyNode \<Rightarrow> geo_error + bool \<times> real" where
  "box_checkDistance env want fudge node =
     (let approxPt = e_keyPoint env (kn_key node);
          approxInside = inside want approxPt fudge
      in if approxInside \<and> onBoundary want approxPt fudge
         then Inr (list_ex (\<lambda>l. inside want l 0) (e_getKeys env (kn_recordLoc node)), 0)
         else Inr (approxInside, 0))"

text \<open>
  The invariant of a browser and the points it has emitted so far: the emitted and the
  queued points belong to different documents, each of them matched, and the current
  point is one of the emitted ones.
\<close>

definition browse_inv :: "'k GeoBrowse \<Rightarrow> 'k GeoPoint list \<Rightarrow> bool" where
  "browse_inv st emitted \<longleftrightarrow>
     distinct (map gp_loc (emitted @ br_stack st)) \<and>
     (\<forall>g\<in>set (emitted @ br_stack st). acc_matched st (gp_loc g) = Some True) \<and>
     (\<forall>g. br_cur st = Some g \<longrightarrow> g \<in> set emitted)"

section \<open>Journal recovery (db/dur_recover.cpp)\<close>

type_synonym byte = "8 word"

text \<open>
  The exceptions of the recovery code: \<open>BufReader::eof\<close>, \<open>uassert\<close>/\<open>uasserted\<close> and
  \<open>massert\<close> with their codes, a failed \<open>assert\<close>, a read through a raw pointer that
  leaves the mapped file (the footer's hash is read that way), and the
  exceptions \<open>'x\<close> of the code that is not part of the sources (\<open>DurOp::read\<close>, and the
  memory-mapped files an entry is applied to).
\<close>

datatype 'x jerror =
    BufReaderEof
  | UAssert nat
  | MAssert nat
  | JAssertionFailed
  | ReadPastEnd
  | External 'x

definition bindE :: "'e + 'a \<Rightarrow> ('a \<Rightarrow> 'e + 'b) \<Rightarrow> 'e + 'b" where
  "bindE m f = (case m of Inl e \<Rightarrow> Inl e | Inr a \<Rightarrow> f a)"

text \<open>
  What the iterator takes from dur_journalformat.h, durop.h and md5.h, none of them part
  of the sources. A \<open>JEntry\<close>, a \<open>JObjAppend\<close> and a \<open>JSectFooter\<close> each begin with
  the 32-bit word that \<open>next\<close> reads as \<open>lenOrOpCode\<close> (\<open>next\<close> rewinds over it
  before it skips a \<open>JEntry\<close> or a \<open>JObjAppend\<close>, and skips
  \<open>sizeof(JSectFooter) - 4\<close> after it); the sizes of the three are given by what
  follows that word. \<open>hash\<close> is a field of the footer after the word, at
  \<open>j_hash_ofs\<close> from the end of the word and \<open>j_hash_len\<close> bytes long.
  \<open>j_DurOp_read\<close> is \<open>DurOp::read(lenOrOpCode, _br)\<close>, from the bytes at the reader's
  position to the operation and the number of bytes it consumed. \<open>j_after_buffer\<close>
  is the byte of memory that follows the mapped file, which \<open>next\<close> reads when a
  database name runs to the end of the file.
\<close>

datatype ('op, 'x) durop_result = DurOpRead 'op nat | DurOpEof | DurOpError 'x

record ('op, 'x) jformat =
  j_sizeof_JHeader :: nat
  j_sizeof_JSectHeader :: nat
  j_JSectFooter_tail :: nat
  j_JEntry_tail :: nat
  j_JObjAppend_tail :: nat
  j_Alignment :: nat
  j_MaxNsLen :: nat
  j_OpCode_Footer :: "32 word"
  j_OpCode_FileCreated :: "32 word"
  j_OpCode_DropDb :: "32 word"
  j_OpCode_DbContext :: "32 word"
  j_OpCode_ObjAppend :: "32 word"
  j_hash_ofs :: nat
  j_hash_len :: nat
  j_md5 :: "byte list \<Rightarrow> byte list"
  j_versionOk :: "byte list \<Rightarrow> bool"
  j_valid :: "byte list \<Rightarrow> bool"
  j_isLocalDbContext :: "byte list \<Rightarrow> bool"
  j_DurOp_read :: "32 word \<Rightarrow> byte list \<Rightarrow> ('op, 'x) durop_result"
  j_after_buffer :: byte

subsection \<open>BufReader\<close>

text \<open>
  Modelled from the spec: the class \<open>BufReader\<close> (bufreader.h is not part of the
  sources). It walks a buffer of \<open>len\<close> bytes; \<open>read\<close> and \<open>skip\<close> advance the
  position and throw \<open>BufReader::eof\<close> when the buffer has fewer bytes left than asked
  for ("a \<open>BufReader\<close> exhaustion"), \<open>skip\<close> returns the position it started from,
  \<open>rewind\<close> steps back, \<open>align\<close> moves the position up to the next multiple of the
  alignment ("sections are aligned to a fixed boundary"), \<open>atEof\<close> holds at the end
  of the buffer. A 32-bit word is stored with the least significant byte first.
\<close>

record BufReader =
  rd_buf :: "byte list"
  rd_pos :: nat

definition le32 :: "byte list \<Rightarrow> 32 word" where
  "le32 bs = word_of_nat (unat (bs ! 0) + 256 * unat (bs ! 1) + 65536 * unat (bs ! 2)
                          + 16777216 * unat (bs ! 3))"

definition rd_skip :: "nat \<Rightarrow> BufReader \<Rightarrow> 'x jerror + nat \<times> BufReader" where
  "rd_skip n br =
     (if length (rd_buf br) < rd_pos br + n then Inl BufReaderEof
      else Inr (rd_pos br, br\<lparr>rd_pos := rd_pos br + n\<rparr>))"

definition rd_read32 :: "BufReader \<Rightarrow> 'x jerror + 32 word \<times> BufReader" where
  "rd_read32 br =
     (if length (rd_buf br) < rd_pos br + 4 then Inl BufReaderEof
      else Inr (le32 (take 4 (drop (rd_pos br) (rd_buf br))), br\<lparr>rd_pos := rd_pos br + 4\<rparr>))"

definition rd_rewind :: "nat \<Rightarrow> BufReader \<Rightarrow> BufReader" where
  "rd_rewind n br = br\<lparr>rd_pos := rd_pos br - n\<rparr>"

definition rd_align :: "nat \<Rightarrow> BufReader \<Rightarrow> BufReader" where
  "rd_align a br =
     (if a = 0 then br else br\<lparr>rd_pos := ((rd_pos br + a - 1) div a) * a\<rparr>)"

definition rd_atEof :: "BufReader \<Rightarrow> bool" where
  "rd_atEof br \<longleftrightarrow> rd_pos br = length (rd_buf br)"

definition rd_remaining :: "BufReader \<Rightarrow> nat" where
  "rd_remaining br = length (rd_buf br) - rd_pos br"

subsection \<open>JournalIterator\<close>

text \<open>
  \<open>ParsedJournalEntry\<close>: a basic write (\<open>e\<close> set) or an object append (\<open>d\<close> set),
  each with the database name \<open>dbName\<close> and the position of its record in the file, or
  an operation \<open>op\<close>. \<open>dbName\<close> is a \<open>const char*\<close>, null or pointing at a
  NUL-terminated name; it is the name's bytes here, or \<open>None\<close>.
\<close>

datatype 'op ParsedJournalEntry =
    BasicWrite "byte list option" nat
  | ObjAppend "byte list option" nat
  | DurOp 'op

record JournalIterator =
  it_br :: BufReader
  it_sectHead :: "nat option"
  it_lastDbName :: "byte list option"

definition local_name :: "byte list" where
  "local_name = [0x6C, 0x6F, 0x63, 0x61, 0x6C]"

text \<open>
  The constructor: the file header is read and checked, \<open>_sectHead\<close> and
  \<open>_lastDbName\<close> start as null.
\<close>

definition JournalIterator_init ::
  "('op, 'x) jformat \<Rightarrow> byte list \<Rightarrow> 'x jerror + JournalIterator" where
  "JournalIterator_init J buf =
     bindE (rd_skip (j_sizeof_JHeader J) \<lparr>rd_buf = buf, rd_pos = 0\<rparr>) (\<lambda>(p, br).
       let h = take (j_sizeof_JHeader J) buf in
       if \<not> j_versionOk J h then Inl (UAssert 13536)
       else if \<not> j_valid J h then Inl (UAssert 13537)
       else Inr \<lparr>it_br = br, it_sectHead = None, it_lastDbName = None\<rparr>)"

text \<open>
  The bytes \<open>next\<close> hands to \<open>footer.checkHash(_sectHead, len)\<close> when it meets a
  footer whose opcode word starts at \<open>pos\<close>: \<open>len = pos - _sectHead\<close> bytes from
  \<open>_sectHead\<close>.
\<close>

definition hashed_bytes :: "byte list \<Rightarrow> nat \<Rightarrow> nat \<Rightarrow> byte list" where
  "hashed_bytes buf sectHead pos = take (pos - sectHead) (drop sectHead buf)"

text \<open>The hash recorded in the footer whose opcode word starts at \<open>pos\<close>.\<close>

definition footer_hash :: "('op, 'x) jformat \<Rightarrow> byte list \<Rightarrow> nat \<Rightarrow> byte list" where
  "footer_hash J buf pos = take (j_hash_len J) (drop (pos + 4 + j_hash_ofs J) buf)"

text \<open>
  Modelled from the spec: \<open>JSectFooter::checkHash\<close> (dur_journalformat.h is not part
  of the sources), "recompute MD5 over the section bytes ... and fail if mismatched".
  The footer is read through a pointer into the buffer without a bounds check.
\<close>

definition checkHash ::
  "('op, 'x) jformat \<Rightarrow> byte list \<Rightarrow> nat \<Rightarrow> byte list \<Rightarrow> 'x jerror + bool" where
  "checkHash J buf pos bytes =
     (if length buf < pos + 4 + j_hash_ofs J + j_hash_len J then Inl ReadPastEnd
      else Inr (j_md5 J bytes = footer_hash J buf pos))"

text \<open>\<open>case JEntry::OpCode_Footer\<close> of \<open>next\<close>, after the opcode has been read.\<close>

definition next_footer ::
  "('op, 'x) jformat \<Rightarrow> JournalIterator \<Rightarrow> nat
   \<Rightarrow> 'x jerror + 'op ParsedJournalEntry option \<times> JournalIterator" where
  "next_footer J it sectHead =
     (let br = it_br it;
          pos = rd_pos br - 4
      in bindE (checkHash J (rd_buf br) pos (hashed_bytes (rd_buf br) sectHead pos)) (\<lambda>ok.
           if \<not> ok then Inl (MAssert 13594)
           else bindE (rd_skip (j_JSectFooter_tail J) br) (\<lambda>(p, br).
             Inr (None, it\<lparr>it_br := rd_align (j_Alignment J) br, it_sectHead := None\<rparr>))))"

text \<open>
  \<open>case JEntry::OpCode_FileCreated\<close> and \<open>case JEntry::OpCode_DropDb\<close>:
  \<open>e.dbName = 0; e.op = DurOp::read(lenOrOpCode, _br)\<close>.
\<close>

definition next_durop ::
  "('op, 'x) jformat \<Rightarrow> JournalIterator \<Rightarrow> 32 word
   \<Rightarrow> 'x jerror + 'op ParsedJournalEntry option \<times> JournalIterator" where
  "next_durop J it lenOrOpCode =
     (let br = it_br it in
      case j_DurOp_read J lenOrOpCode (drop (rd_pos br) (rd_buf br)) of
        DurOpEof \<Rightarrow> Inl BufReaderEof
      | DurOpError x \<Rightarrow> Inl (External x)
      | DurOpRead op n \<Rightarrow>
          bindE (rd_skip n br) (\<lambda>(p, br). Inr (Some (DurOp op), it\<lparr>it_br := br\<rparr>)))"

text \<open>
  \<open>case JEntry::OpCode_DbContext\<close>: the name at the reader's position becomes
  \<open>_lastDbName\<close>, \<open>strnlen\<close> looks for its end within \<open>limit\<close> bytes, the byte
  there must be NUL, and the next \<open>lenOrOpCode\<close> is read. The result is that word and
  the iterator. When the rest of the buffer is no longer than \<open>MaxNsLen\<close> and holds no
  NUL, \<open>len\<close> is \<open>remaining\<close> and \<open>_lastDbName[len]\<close> is the byte behind the
  buffer; if that byte is NUL, \<open>skip(len+1)\<close> then throws \<open>BufReader::eof\<close>.
\<close>

definition next_dbcontext ::
  "('op, 'x) jformat \<Rightarrow> JournalIterator \<Rightarrow> 'x jerror + 32 word \<times> JournalIterator" where
  "next_dbcontext J it =
     (let br = it_br it;
          name_start = drop (rd_pos br) (rd_buf br);
          limit = min (j_MaxNsLen J) (rd_remaining br);
          len = length (takeWhile (\<lambda>b. b \<noteq> 0) (take limit name_start));
          terminator = (if len < length name_start then name_start ! len
                        else j_after_buffer J)
      in if terminator \<noteq> 0 then Inl (MAssert 13533)
         else bindE (rd_skip (len + 1) br) (\<lambda>(p, br).
              bindE (rd_read32 br) (\<lambda>(lenOrOpCode, br).
                Inr (lenOrOpCode,
                     it\<lparr>it_lastDbName := Some (take len name_start), it_br := br\<rparr>))))"

text \<open>
  The block after the \<open>switch\<close>, for an object append or a basic write of
  \<open>lenOrOpCode\<close> bytes. \<open>e.e->len\<close> is \<open>lenOrOpCode\<close> (the \<open>dassert\<close>).
\<close>

definition next_basic ::
  "('op, 'x) jformat \<Rightarrow> JournalIterator \<Rightarrow> 32 word
   \<Rightarrow> 'x jerror + 'op ParsedJournalEntry option \<times> JournalIterator" where
  "next_basic J it lenOrOpCode =
     (if \<not> (lenOrOpCode \<noteq> 0 \<and> lenOrOpCode \<le> j_OpCode_ObjAppend J) then Inl JAssertionFailed
      else
        let br = rd_rewind 4 (it_br it) in
        if lenOrOpCode = j_OpCode_ObjAppend J then
          bindE (rd_skip (4 + j_JObjAppend_tail J) br) (\<lambda>(p, br).
            Inr (Some (ObjAppend (it_lastDbName it) p), it\<lparr>it_br := br\<rparr>))
        else
          bindE (rd_skip (4 + j_JEntry_tail J) br) (\<lambda>(p, br).
            let dbName =
                  (if j_isLocalDbContext J (take (4 + j_JEntry_tail J) (drop p (rd_buf br)))
                   then Some local_name else it_lastDbName it)
            in bindE (rd_skip (unat lenOrOpCode) br) (\<lambda>(q, br).
                 Inr (Some (BasicWrite dbName p), it\<lparr>it_br := br\<rparr>))))"

text \<open>
  \<open>JournalIterator::next\<close>. The result is the entry when the function returns true,
  \<open>None\<close> when it returns false at the end of a section.
\<close>

definition JournalIterator_next ::
  "('op, 'x) jformat \<Rightarrow> JournalIterator
   \<Rightarrow> 'x jerror + 'op ParsedJournalEntry option \<times> JournalIterator" where
  "JournalIterator_next J it =
     bindE (case it_sectHead it of
              Some h \<Rightarrow> Inr (h, it)
            | None \<Rightarrow>
                bindE (rd_skip (j_sizeof_JSectHeader J) (it_br it)) (\<lambda>(p, br).
                  Inr (p, it\<lparr>it_sectHead := Some p, it_br := br\<rparr>)))
       (\<lambda>(sectHead, it).
     bindE (rd_read32 (it_br it)) (\<lambda>(lenOrOpCode, br).
       let it = it\<lparr>it_br := br\<rparr> in
       if lenOrOpCode = j_OpCode_Footer J then next_footer J it sectHead
       else if lenOrOpCode = j_OpCode_FileCreated J \<or> lenOrOpCode = j_OpCode_DropDb J
            then next_durop J it lenOrOpCode
       else if lenOrOpCode = j_OpCode_DbContext J
            then bindE (next_dbcontext J it) (\<lambda>(lenOrOpCode, it). next_basic J it lenOrOpCode)
       else next_basic J it lenOrOpCode))"

text \<open>Every call of \<open>next\<close> that returns has moved the reader forward.\<close>

lemma bindE_Inr_iff: "bindE m f = Inr r \<longleftrightarrow> (\<exists>a. m = Inr a \<and> f a = Inr r)"
  by (cases m) (simp_all add: bindE_def)

lemma bindE_InrE:
  assumes "bindE m f = Inr r"
  obtains a where "m = Inr a" "f a = Inr r"
  using assms by (cases m) (simp_all add: bindE_def)

lemma rd_skip_Inr:
  "rd_skip n br = Inr (p, br') \<longleftrightarrow>
     rd_pos br + n \<le> length (rd_buf br) \<and> p = rd_pos br \<and> br' = br\<lparr>rd_pos := rd_pos br + n\<rparr>"
  by (auto simp: rd_skip_def)

lemma rd_read32_Inr:
  "rd_read32 br = Inr (w, br') \<longleftrightarrow>
     rd_pos br + 4 \<le> length (rd_buf br) \<and> w = le32 (take 4 (drop (rd_pos br) (rd_buf br))) \<and>
     br' = br\<lparr>rd_pos := rd_pos br + 4\<rparr>"
  by (auto simp: rd_read32_def)

lemma rd_align_ge: "rd_pos br \<le> rd_pos (rd_align a br)"
proof (cases "a = 0")
  case True
  then show ?thesis by (simp add: rd_align_def)
next
  case False
  have "rd_pos br \<le> (rd_pos br + a - 1) div a * a"
  proof -
    have "(rd_pos br + a - 1) mod a < a" using False by simp
    moreover have "(rd_pos br + a - 1) div a * a + (rd_pos br + a - 1) mod a = rd_pos br + a - 1"
      by simp
    ultimately show ?thesis using False by linarith
  qed
  then show ?thesis using False by (simp add: rd_align_def)
qed

lemma rd_align_buf: "rd_buf (rd_align a br) = rd_buf br"
  by (simp add: rd_align_def)

lemma next_footer_progress:
  assumes "next_footer J it h = Inr (r, it')"
  shows "rd_pos (it_br it) \<le> rd_pos (it_br it') \<and> rd_buf (it_br it') = rd_buf (it_br it)"
  using assms rd_align_ge[of "(it_br it)\<lparr>rd_pos := rd_pos (it_br it) + j_JSectFooter_tail J\<rparr>" "j_Alignment J"]
  by (auto simp: next_footer_def Let_def bindE_Inr_iff rd_skip_Inr rd_align_buf split: if_splits)

lemma next_durop_progress:
  assumes "next_durop J it w = Inr (r, it')"
  shows "rd_pos (it_br it) \<le> rd_pos (it_br it') \<and> rd_buf (it_br it') = rd_buf (it_br it)"
  using assms
  by (auto simp: next_durop_def Let_def bindE_Inr_iff rd_skip_Inr split: durop_result.splits)

lemma next_dbcontext_progress:
  assumes "next_dbcontext J it = Inr (w, it')"
  shows "rd_pos (it_br it) + 4 \<le> rd_pos (it_br it') \<and> rd_buf (it_br it') = rd_buf (it_br it)"
  using assms
  by (auto simp: next_dbcontext_def Let_def bindE_Inr_iff rd_skip_Inr rd_read32_Inr split: if_splits)

lemma next_basic_progress:
  assumes "next_basic J it w = Inr (r, it')"
  shows "rd_pos (it_br it) \<le> rd_pos (it_br it') \<and> rd_buf (it_br it') = rd_buf (it_br it)"
  using assms
  by (auto simp: next_basic_def Let_def bindE_Inr_iff rd_skip_Inr rd_rewind_def split: if_splits)

lemma next_progress:
  assumes "JournalIterator_next (J :: ('op, 'x) jformat) it = Inr (r, it')"
  shows "rd_pos (it_br it) < rd_pos (it_br it') \<and>
         rd_pos (it_br it) < length (rd_buf (it_br it)) \<and>
         rd_buf (it_br it') = rd_buf (it_br it)"
proof -
  from assms[unfolded JournalIterator_next_def] obtain a where
    a1: "(case it_sectHead it of Some h \<Rightarrow> Inr (h, it)
          | None \<Rightarrow> bindE (rd_skip (j_sizeof_JSectHeader J) (it_br it)) (\<lambda>(p, br).
                  Inr (p, it\<lparr>it_sectHead := Some p, it_br := br\<rparr>))) = (Inr a :: 'x jerror + _)"
    and a2: "(case a of (sectHead, it) \<Rightarrow>
       bindE (rd_read32 (it_br it)) (\<lambda>(lenOrOpCode, br).
       let it = it\<lparr>it_br := br\<rparr> in
       if lenOrOpCode = j_OpCode_Footer J then next_footer J it sectHead
       else if lenOrOpCode = j_OpCode_FileCreated J \<or> lenOrOpCode = j_OpCode_DropDb J
            then next_durop J it lenOrOpCode
       else if lenOrOpCode = j_OpCode_DbContext J
            then bindE (next_dbcontext J it) (\<lambda>(lenOrOpCode, it). next_basic J it lenOrOpCode)
       else next_basic J it lenOrOpCode)) = Inr (r, it')"
    by (rule bindE_InrE)
  obtain h it1 where a: "a = (h, it1)" by (cases a)
  from a2[unfolded a prod.case] obtain b where b1: "rd_read32 (it_br it1) = (Inr b :: 'x jerror + _)"
    and b2: "(case b of (lenOrOpCode, br) \<Rightarrow>
       let it = it1\<lparr>it_br := br\<rparr> in
       if lenOrOpCode = j_OpCode_Footer J then next_footer J it h
       else if lenOrOpCode = j_OpCode_FileCreated J \<or> lenOrOpCode = j_OpCode_DropDb J
            then next_durop J it lenOrOpCode
       else if lenOrOpCode = j_OpCode_DbContext J
            then bindE (next_dbcontext J it) (\<lambda>(lenOrOpCode, it). next_basic J it lenOrOpCode)
       else next_basic J it lenOrOpCode) = Inr (r, it')"
    by (rule bindE_InrE)
  obtain w br2 where b: "b = (w, br2)" by (cases b)
  have s1: "(case it_sectHead it of Some h \<Rightarrow> Inr (h, it)
          | None \<Rightarrow> bindE (rd_skip (j_sizeof_JSectHeader J) (it_br it)) (\<lambda>(p, br).
                  Inr (p, it\<lparr>it_sectHead := Some p, it_br := br\<rparr>))) = (Inr (h, it1) :: 'x jerror + _)"
    using a1 a by simp
  have s2: "rd_read32 (it_br it1) = (Inr (w, br2) :: 'x jerror + _)" using b1 b by simp
  have s3: "(if w = j_OpCode_Footer J then next_footer J (it1\<lparr>it_br := br2\<rparr>) h
       else if w = j_OpCode_FileCreated J \<or> w = j_OpCode_DropDb J
            then next_durop J (it1\<lparr>it_br := br2\<rparr>) w
       else if w = j_OpCode_DbContext J
            then bindE (next_dbcontext J (it1\<lparr>it_br := br2\<rparr>)) (\<lambda>(lenOrOpCode, it). next_basic J it lenOrOpCode)
       else next_basic J (it1\<lparr>it_br := br2\<rparr>) w) = Inr (r, it')"
    using b2 b by (simp add: Let_def)
  from s1 have p1: "rd_pos (it_br it) \<le> rd_pos (it_br it1)" "rd_buf (it_br it1) = rd_buf (it_br it)"
    by (auto simp: bindE_Inr_iff rd_skip_Inr split: option.splits)
  from s2 have p2: "rd_pos (it_br it1) + 4 \<le> length (rd_buf (it_br it1))"
    "rd_pos br2 = rd_pos (it_br it1) + 4" "rd_buf br2 = rd_buf (it_br it1)"
    by (auto simp: rd_read32_Inr)
  have p3: "rd_pos br2 \<le> rd_pos (it_br it') \<and> rd_buf (it_br it') = rd_buf br2"
    using s3 next_footer_progress[of J "it1\<lparr>it_br := br2\<rparr>" h r it']
      next_durop_progress[of J "it1\<lparr>it_br := br2\<rparr>" w r it']
      next_basic_progress[of J "it1\<lparr>it_br := br2\<rparr>" w r it']
    apply (simp split: if_splits)
    apply (auto simp: bindE_Inr_iff dest!: next_dbcontext_progress next_basic_progress)
    done
  from p1 p2 p3 show ?thesis by simp
qed

subsection \<open>RecoveryJob\<close>

text \<open>
  The loop \<open>while (1) { ParsedJournalEntry e; if (!i.next(e)) break; entries.push_back(e); }\<close>
  of \<open>processBuffer\<close>: the entries up to the end of the section, and the iterator
  after it. Every call of \<open>next\<close> that returns moves the reader forward, which bounds
  the number of iterations by the length of the file.
\<close>

function read_entries ::
  "('op, 'x) jformat \<Rightarrow> JournalIterator \<Rightarrow> 'op ParsedJournalEntry list
   \<Rightarrow> 'x jerror + 'op ParsedJournalEntry list \<times> JournalIterator" where
  "read_entries J it entries =
     (case JournalIterator_next J it of
        Inl e \<Rightarrow> Inl e
      | Inr (None, it') \<Rightarrow> Inr (entries, it')
      | Inr (Some e, it') \<Rightarrow> read_entries J it' (entries @ [e]))"
  by pat_completeness auto
termination
proof (relation "measure (\<lambda>(J, it, entries). length (rd_buf (it_br it)) - rd_pos (it_br it))")
  show "wf (measure (\<lambda>(J :: ('op, 'x) jformat, it, entries :: 'op ParsedJournalEntry list).
              length (rd_buf (it_br it)) - rd_pos (it_br it)))"
    by simp
next
  fix J :: "('op, 'x) jformat" and it entries x2 x1 it' e
  assume "JournalIterator_next J it = Inr x2" "(x1, it') = x2" "x1 = Some (e :: 'op ParsedJournalEntry)"
  then have "JournalIterator_next J it = Inr (Some e, it')" by simp
  from next_progress[OF this]
  show "((J, it', entries @ [e]), (J, it, entries))
          \<in> measure (\<lambda>(J, it, entries). length (rd_buf (it_br it)) - rd_pos (it_br it))"
    by (auto intro: diff_less_mono2)
qed

declare read_entries.simps [simp del]

lemma read_entries_progress:
  "read_entries J it entries = Inr (es, it') \<Longrightarrow>
     rd_pos (it_br it) < rd_pos (it_br it') \<and>
     rd_pos (it_br it) < length (rd_buf (it_br it)) \<and>
     rd_buf (it_br it') = rd_buf (it_br it)"
proof (induction J it entries rule: read_entries.induct)
  case (1 J it entries)
  from "1.prems" obtain r it1 where n: "JournalIterator_next J it = Inr (r, it1)"
    by (subst (asm) read_entries.simps) (auto split: sum.splits)
  note p = next_progress[OF n]
  show ?case
  proof (cases r)
    case None
    with "1.prems" n have "it' = it1"
      by (subst (asm) read_entries.simps) simp
    with p show ?thesis by simp
  next
    case (Some e)
    with "1.prems" n have "read_entries J it1 (entries @ [e]) = Inr (es, it')"
      by (subst (asm) read_entries.simps) simp
    from "1.IH"[OF n refl Some this] p show ?thesis by simp
  qed
qed

text \<open>
  \<open>applyEntry\<close> writes to the memory-mapped data files, which are not part of the
  sources: \<open>app\<close> is its effect on their state \<open>'s\<close>, or the exception it raises.
  \<open>apply\<close> is false in scan-only mode (\<open>CmdLine::DurScanOnly\<close>), when entries are
  read and not applied. \<open>applyEntries\<close> returns the state it reached together with the
  exception, if any, that stopped it.
\<close>

fun applyEntries ::
  "('e \<Rightarrow> 's \<Rightarrow> 'x + 's) \<Rightarrow> bool \<Rightarrow> 'e list \<Rightarrow> 's \<Rightarrow> 'x jerror option \<times> 's" where
  "applyEntries app apply [] s = (None, s)"
| "applyEntries app apply (e # es) s =
     (if apply then
        (case app e s of
           Inl x \<Rightarrow> (Some (External x), s)
         | Inr s' \<Rightarrow> applyEntries app apply es s')
      else applyEntries app apply es s)"

text \<open>
  The outer loop of \<open>processBuffer\<close>, inside the \<open>try\<close> block: read the entries of
  one group commit, apply them, stop at the end of the file. The result is the state of
  the data files and the exception that ended the loop, if one did.
\<close>

function process_sections ::
  "('op, 'x) jformat \<Rightarrow> ('op ParsedJournalEntry \<Rightarrow> 's \<Rightarrow> 'x + 's) \<Rightarrow> bool
   \<Rightarrow> JournalIterator \<Rightarrow> 's \<Rightarrow> 'x jerror option \<times> 's" where
  "process_sections J app apply it s =
     (case read_entries J it [] of
        Inl e \<Rightarrow> (Some e, s)
      | Inr (entries, it') \<Rightarrow>
          (case applyEntries app apply entries s of
             (Some e, s') \<Rightarrow> (Some e, s')
           | (None, s') \<Rightarrow>
               if rd_atEof (it_br it') then (None, s')
               else process_sections J app apply it' s'))"
  by pat_completeness auto
termination
proof (relation "measure (\<lambda>(J, app, apply, it, s). length (rd_buf (it_br it)) - rd_pos (it_br it))")
  show "wf (measure (\<lambda>(J :: ('op, 'x) jformat, app :: 'op ParsedJournalEntry \<Rightarrow> 's \<Rightarrow> 'x + 's,
              apply :: bool, it, s :: 's). length (rd_buf (it_br it)) - rd_pos (it_br it)))"
    by simp
next
  fix J :: "('op, 'x) jformat" and app :: "'op ParsedJournalEntry \<Rightarrow> 's \<Rightarrow> 'x + 's"
    and ap it and s :: 's and x2 entries it' and x :: "'x jerror option \<times> 's" and x1 s' 
  assume "read_entries J it [] = Inr x2" "(entries, it') = x2"
  then have "read_entries J it [] = Inr (entries, it')" by simp
  from read_entries_progress[OF this]
  show "((J, app, ap, it', s'), (J, app, ap, it, s))
          \<in> measure (\<lambda>(J, app, apply, it, s). length (rd_buf (it_br it)) - rd_pos (it_br it))"
    by (auto intro: diff_less_mono2)
qed

declare process_sections.simps [simp del]

text \<open>
  \<open>processBuffer\<close>: true when the file ends abruptly (\<open>BufReader::eof\<close> caught), false
  when it ends at a section boundary. The iterator is constructed before the \<open>try\<close>
  block, and only \<open>BufReader::eof\<close> is caught.
\<close>

definition processBuffer ::
  "('op, 'x) jformat \<Rightarrow> ('op ParsedJournalEntry \<Rightarrow> 's \<Rightarrow> 'x + 's) \<Rightarrow> bool
   \<Rightarrow> byte list \<Rightarrow> 's \<Rightarrow> 'x jerror + bool \<times> 's" where
  "processBuffer J app apply buf s =
     (case JournalIterator_init J buf of
        Inl e \<Rightarrow> Inl e
      | Inr it \<Rightarrow>
          (case process_sections J app apply it s of
             (Some BufReaderEof, s') \<Rightarrow> Inr (True, s')
           | (Some e, s') \<Rightarrow> Inl e
           | (None, s') \<Rightarrow> Inr (False, s')))"

text \<open>\<open>processFile\<close>; a journal file that cannot be mapped is \<open>None\<close>.\<close>

definition processFile ::
  "('op, 'x) jformat \<Rightarrow> ('op ParsedJournalEntry \<Rightarrow> 's \<Rightarrow> 'x + 's) \<Rightarrow> bool
   \<Rightarrow> byte list option \<Rightarrow> 's \<Rightarrow> 'x jerror + bool \<times> 's" where
  "processFile J app apply file s =
     (case file of
        None \<Rightarrow> Inl (MAssert 13544)
      | Some buf \<Rightarrow> processBuffer J app apply buf s)"

text \<open>
  The loop of \<open>RecoveryJob::go\<close> over the journal files in sequence order, on the files
  from index \<open>i\<close> on; \<open>i + 1 < files.size()\<close> holds when more files follow.
\<close>

fun go_files ::
  "('op, 'x) jformat \<Rightarrow> ('op ParsedJournalEntry \<Rightarrow> 's \<Rightarrow> 'x + 's) \<Rightarrow> bool
   \<Rightarrow> byte list option list \<Rightarrow> 's \<Rightarrow> 'x jerror + 's" where
  "go_files J app apply [] s = Inr s"
| "go_files J app apply (file # files) s =
     (case processFile J app apply file s of
        Inl e \<Rightarrow> Inl e
      | Inr (abruptEnd, s') \<Rightarrow>
          if abruptEnd \<and> files \<noteq> [] then Inl (UAssert 13535)
          else go_files J app apply files s')"

text \<open>
  \<open>RecoveryJob::go\<close>. In scan-only mode the job ends with the user assertion 13545;
  otherwise the journal files are removed and \<open>okToCleanUp\<close> is set.
\<close>

definition go ::
  "('op, 'x) jformat \<Rightarrow> ('op ParsedJournalEntry \<Rightarrow> 's \<Rightarrow> 'x + 's) \<Rightarrow> bool
   \<Rightarrow> byte list option list \<Rightarrow> 's \<Rightarrow> 'x jerror + 's" where
  "go J app scanOnly files s =
     (case go_files J app (\<not> scanOnly) files s of
        Inl e \<Rightarrow> Inl e
      | Inr s' \<Rightarrow> if scanOnly then Inl (UAssert 13545) else Inr s')"

text \<open>
  The sections of a file as \<open>processBuffer\<close> reads them, without applying them: the
  entries of every section that is complete, and the exception that ended the reading,
  if one did. The entries of an incomplete last section are not among them.
\<close>

function parse_sections ::
  "('op, 'x) jformat \<Rightarrow> JournalIterator
   \<Rightarrow> 'op ParsedJournalEntry list list \<times> 'x jerror option" where
  "parse_sections J it =
     (case read_entries J it [] of
        Inl e \<Rightarrow> ([], Some e)
      | Inr (entries, it') \<Rightarrow>
          if rd_atEof (it_br it') then ([entries], None)
          else (case parse_sections J it' of (secs, ending) \<Rightarrow> (entries # secs, ending)))"
  by pat_completeness auto
termination
proof (relation "measure (\<lambda>(J, it). length (rd_buf (it_br it)) - rd_pos (it_br it))")
  show "wf (measure (\<lambda>(J :: ('op, 'x) jformat, it).
              length (rd_buf (it_br it)) - rd_pos (it_br it)))"
    by simp
next
  fix J :: "('op, 'x) jformat" and it x2 and entries :: "'op ParsedJournalEntry list" and it'
  assume "read_entries J it [] = Inr x2" "(entries, it') = x2"
  then have "read_entries J it [] = Inr (entries, it')" by simp
  from read_entries_progress[OF this]
  show "((J, it'), (J, it)) \<in> measure (\<lambda>(J, it). length (rd_buf (it_br it)) - rd_pos (it_br it))"
    by (auto intro: diff_less_mono2)
qed

declare parse_sections.simps [simp del]

fun apply_sections ::
  "('e \<Rightarrow> 's \<Rightarrow> 'x + 's) \<Rightarrow> bool \<Rightarrow> 'e list list \<Rightarrow> 's \<Rightarrow> 'x jerror option \<times> 's" where
  "apply_sections app apply [] s = (None, s)"
| "apply_sections app apply (sec # secs) s =
     (case applyEntries app apply sec s of
        (Some e, s') \<Rightarrow> (Some e, s')
      | (None, s') \<Rightarrow> apply_sections app apply secs s')"

text \<open>
  The state of the data files after \<open>processFile\<close> has gone through some journal files
  and each of them ended at a section boundary, without an exception.
\<close>

fun processed_cleanly ::
  "('op, 'x) jformat \<Rightarrow> ('op ParsedJournalEntry \<Rightarrow> 's \<Rightarrow> 'x + 's) \<Rightarrow> bool
   \<Rightarrow> byte list option list \<Rightarrow> 's \<Rightarrow> 's option" where
  "processed_cleanly J app apply [] s = Some s"
| "processed_cleanly J app apply (file # files) s =
     (case processFile J app apply file s of
        Inr (False, s') \<Rightarrow> processed_cleanly J app apply files s'
      | _ \<Rightarrow> None)"

text \<open>
  Where the word \<open>lenOrOpCode\<close> that the next call of \<open>next\<close> reads lies in the
  file, its value, and the start of the section it belongs to (\<open>_sectHead\<close>, set by
  that call when it is null).
\<close>

definition sect_start :: "JournalIterator \<Rightarrow> nat" where
  "sect_start it = (case it_sectHead it of Some h \<Rightarrow> h | None \<Rightarrow> rd_pos (it_br it))"

definition entry_pos :: "('op, 'x) jformat \<Rightarrow> JournalIterator \<Rightarrow> nat" where
  "entry_pos J it =
     (case it_sectHead it of
        Some h \<Rightarrow> rd_pos (it_br it)
      | None \<Rightarrow> rd_pos (it_br it) + j_sizeof_JSectHeader J)"

definition entry_opcode :: "('op, 'x) jformat \<Rightarrow> JournalIterator \<Rightarrow> 32 word" where
  "entry_opcode J it = le32 (take 4 (drop (entry_pos J it) (rd_buf (it_br it))))"

text \<open>
  An instance of the format for concrete runs: a file header of 4 bytes, a section header
  of 4 bytes, a footer of the opcode word, a hash of 2 bytes and 2 more bytes, entries
  with 8 bytes after their first word, sections aligned to 4 bytes, and the opcodes
  counted down from \<open>0xffffffff\<close>. In place of MD5 (md5.h is not part of the sources)
  stands a digest of two bytes: the length of the data and the sum of its bytes. The
  byte behind the file is zero, as it is for a mapped file that does not end on a page
  boundary.
\<close>

definition sample_digest :: "byte list \<Rightarrow> byte list" where
  "sample_digest bs = [word_of_nat (length bs), word_of_nat (sum_list (map unat bs))]"

definition sample_format :: "(nat, nat) jformat" where
  "sample_format =
     \<lparr>j_sizeof_JHeader = 4, j_sizeof_JSectHeader = 4, j_JSectFooter_tail = 4,
      j_JEntry_tail = 8, j_JObjAppend_tail = 16, j_Alignment = 4, j_MaxNsLen = 128,
      j_OpCode_Footer = 0xffffffff, j_OpCode_FileCreated = 0xfffffffd,
      j_OpCode_DropDb = 0xfffffffc, j_OpCode_DbContext = 0xfffffffe,
      j_OpCode_ObjAppend = 0xfffffffb,
      j_hash_ofs = 0, j_hash_len = 2,
      j_md5 = sample_digest,
      j_versionOk = (\<lambda>h. True),
      j_valid = (\<lambda>h. take 1 h = [0x6A]),
      j_isLocalDbContext = (\<lambda>e. 128 \<le> unat (e ! 11)),
      j_DurOp_read = (\<lambda>w bs. if length bs < 4 then DurOpEof
                               else DurOpRead (unat (le32 (take 4 bs))) 4),
      j_after_buffer = 0\<rparr>"

text \<open>
  A journal file of two sections. The first holds a \<open>DbContext\<close> entry for the database
  \<open>a\<close> followed by a basic write of 2 bytes; the second holds a basic write of 1 byte
  and no \<open>DbContext\<close> entry. Both footers carry the digest of the bytes from the section
  header to the footer.
\<close>

definition sample_journal :: "byte list" where
  "sample_journal =
     [106, 10, 1, 0,
      1, 0, 0, 0,
      254, 255, 255, 255, 97, 0,
      2, 0, 0, 0, 16, 0, 0, 0, 0, 0, 0, 0, 170, 187,
      255, 255, 255, 255, 24, 212, 10, 10,
      2, 0, 0, 0,
      1, 0, 0, 0, 32, 0, 0, 0, 0, 0, 0, 0, 204,
      255, 255, 255, 255, 17, 239, 10, 10,
      0, 0, 0]"

text \<open>
  The data files for concrete runs are the list of the entries applied so far, in order.
\<close>

definition sample_app :: "nat ParsedJournalEntry \<Rightarrow> nat ParsedJournalEntry list
    \<Rightarrow> nat + nat ParsedJournalEntry list" where
  "sample_app e s = Inr (s @ [e])"

text \<open>
  The same file cut off after the data of the second section's write, before the footer
  of that section; the same file cut off inside the database name of the first section's
  \<open>DbContext\<close> entry, before the NUL that ends the name; and the same file with one
  byte of the first footer's hash changed.
\<close>

definition sample_cut_in_name :: "byte list" where
  "sample_cut_in_name = take 13 sample_journal"

definition sample_truncated :: "byte list" where
  "sample_truncated = take 53 sample_journal"

definition sample_corrupt :: "byte list" where
  "sample_corrupt = sample_journal[32 := 25]"

section \<open>The coordinate quantizer of Geo2dType\<close>

subsection \<open>Double arithmetic\<close>

text \<open>
  The quantizer computes in C++ \<open>double\<close>. A finite double is a rational number, and an
  arithmetic operation on doubles returns its exact result rounded to the nearest double,
  a tie going to the double with the even significand. \<open>binary64_exponent x\<close> is the
  exponent \<open>e\<close> of the binade \<open>2^e \<le> \<bar>x\<bar> < 2^(e+1)\<close> of \<open>x\<close>, not below the least
  normal exponent \<open>-1022\<close>; the doubles of that binade are the multiples of
  \<open>2^(e-52)\<close>. Infinities and NaN are not part of the model: it says nothing of a
  result of magnitude \<open>2^1024\<close> or more.
\<close>

function binary64_exponent_from :: "int \<Rightarrow> rat \<Rightarrow> int" where
  "binary64_exponent_from e x =
     (if 1023 < e \<or> \<bar>x\<bar> < 2 powi (e + 1) then e else binary64_exponent_from (e + 1) x)"
  by pat_completeness auto
termination
  by (relation "measure (\<lambda>(e, x). nat (1024 - e))") auto

declare binary64_exponent_from.simps [simp del]

definition binary64_exponent :: "rat \<Rightarrow> int" where
  "binary64_exponent x = binary64_exponent_from (- 1022) x"

definition round_half_even :: "rat \<Rightarrow> int" where
  "round_half_even y =
     (let f = \<lfloor>y\<rfloor>; r = y - of_int f
      in if r < 1 / 2 then f else if 1 / 2 < r then f + 1 else if even f then f else f + 1)"

definition binary64 :: "rat \<Rightarrow> rat" where
  "binary64 x =
     (let ulp = 2 powi (binary64_exponent x - 52)
      in of_int (round_half_even (x / ulp)) * ulp)"

subsection \<open>Geo2dType\<close>

text \<open>
  The fields \<open>_min\<close>, \<open>_max\<close> and \<open>_scaling\<close> of \<open>Geo2dType\<close>, and the part of the
  constructor that sets them: \<open>numBuckets = 1024 * 1024 * 1024 * 4.0\<close> and
  \<open>_scaling = numBuckets / (_max - _min)\<close>. For \<open>_max = _min\<close> the quotient is no
  finite double.
\<close>

record Geo2dType =
  g_min :: rat
  g_max :: rat
  g_scaling :: rat

definition Geo2dType_init :: "rat \<Rightarrow> rat \<Rightarrow> Geo2dType option" where
  "Geo2dType_init minv maxv =
     (let width = binary64 (maxv - minv)
      in if width = 0 then None
         else Some \<lparr>g_min = minv, g_max = maxv, g_scaling = binary64 (4294967296 / width)\<rparr>)"

text \<open>
  \<open>Geo2dType::_convert\<close>: \<open>uassert(13027, ..., in < _max && in >= _min)\<close>,
  \<open>in -= _min\<close>, \<open>assert(in >= 0)\<close> and \<open>return (unsigned)(in * _scaling)\<close>. The
  conversion of a double to \<open>unsigned\<close> drops the fraction; it is undefined in C++
  when the value so truncated is no \<open>unsigned\<close>.
\<close>

definition convert :: "Geo2dType \<Rightarrow> rat \<Rightarrow> geo_error + 32 word" where
  "convert g v =
     (if \<not> (v < g_max g \<and> v \<ge> g_min g) then Inl (UserError 13027)
      else
        let a = binary64 (v - g_min g) in
        if \<not> a \<ge> 0 then Inl AssertionFailed
        else
          let p = binary64 (a * g_scaling g) in
          if p \<le> - 1 \<or> 4294967296 \<le> p then Inl OutOfRange
          else Inr (word_of_int (if 0 \<le> p then \<lfloor>p\<rfloor> else \<lceil>p\<rceil>)))"

text \<open>\<open>Geo2dType::_unconvert\<close>: \<open>double x = in; x /= _scaling; x += _min; return x\<close>.\<close>

definition unconvert :: "Geo2dType \<Rightarrow> 32 word \<Rightarrow> rat" where
  "unconvert g u =
     (let x = of_nat (unat u);
          x = binary64 (x / g_scaling g)
      in binary64 (x + g_min g))"

text \<open>
  The default index: \<open>min = -180\<close>, \<open>max = 180\<close>, and for \<open>_scaling\<close> the double
  nearest to \<open>2^32 / 360\<close>.
\<close>

definition sample_geo :: Geo2dType where
  "sample_geo = \<lparr>g_min = - 180, g_max = 180, g_scaling = 6405119470038039 / 536870912\<rparr>"

section \<open>The geoNear command\<close>

text \<open>
  The arguments of the \<open>geoNear\<close> command (\<open>Geo2dFindNearCmd::run\<close>):
  \<open>int numWanted = 100; if (cmdObj["num"].isNumber()) numWanted = cmdObj["num"].numberInt()\<close>,
  and likewise \<open>maxDistance\<close> and \<open>spherical\<close>. The command hands \<open>numWanted\<close> to
  \<open>GeoSearch\<close> as it is, and \<open>GeoSearch\<close> to the constructor of its \<open>GeoHopper\<close>,
  where it becomes the \<open>unsigned\<close> \<open>_max\<close>.
\<close>

definition geoNear_hopper ::
  "'k geo_env \<Rightarrow> 32 word option \<Rightarrow> Point \<Rightarrow> real option \<Rightarrow> bool \<Rightarrow> 'k GeoHopper" where
  "geoNear_hopper env num near maxDistance spherical =
     GeoHopper_init env
       (case num of None \<Rightarrow> 100 | Some n \<Rightarrow> n)
       near
       (case maxDistance of None \<Rightarrow> DBL_MAX | Some d \<Rightarrow> d)
       (if spherical then GEO_SPHERE else GEO_PLAIN)"

section \<open>Properties of the geometry primitives\<close>

lemma edges_nth:
  "k < length pts \<Longrightarrow> edges pts ! k = (pts ! k, pts ! (Suc k mod length pts))"
  by (simp add: edges_def nth_rotate1)

lemma length_edges: "length (edges pts) = length pts"
  by (simp add: edges_def)

text \<open>
  With \<open>fudge \<le> 0\<close> the loop never takes an early exit, and what it returns after the
  last edge is the parity of the crossings counted so far plus those still to come.
\<close>

lemma contains_loop_parity:
  "\<not> fudge > 0 \<Longrightarrow> 1 \<le> i \<Longrightarrow> i \<le> length pts + 1 \<Longrightarrow>
   p1 = pts ! ((i - 1) mod length pts) \<Longrightarrow>
   contains_loop pts p fudge fb i p1 c =
     (if even (c + length (filter (\<lambda>(p1, p2). ray_crosses p p1 p2) (drop (i - 1) (edges pts))))
      then -1 else 1)"
proof (induction pts p fudge fb i p1 c rule: contains_loop.induct)
  case (1 pts p fudge fb i p1 counter)
  show ?case
  proof (cases "i \<le> length pts")
    case True
    define p2 where "p2 = pts ! (i mod length pts)"
    define c' where "c' = (if ray_crosses p p1 p2 then counter + 1 else counter)"
    have k: "i - 1 < length pts" using True "1.prems"(2) by simp
    have p1: "p1 = pts ! (i - 1)" using k "1.prems"(4) by simp
    have "drop (i - 1) (edges pts) = edges pts ! (i - 1) # drop (Suc (i - 1)) (edges pts)"
      using k by (simp add: Cons_nth_drop_Suc length_edges)
    moreover have "Suc (i - 1) = i" using "1.prems"(2) by simp
    ultimately have dr: "drop (i - 1) (edges pts) = (p1, p2) # drop i (edges pts)"
      using edges_nth[OF k] p1 p2_def by simp
    have ih: "contains_loop pts p fudge fb (i + 1) p2 c' =
       (if even (c' + length (filter (\<lambda>(p1, p2). ray_crosses p p1 p2)
                               (drop (i + 1 - 1) (edges pts))))
        then -1 else 1)"
      unfolding c'_def
    proof (rule "1.IH"[OF True])
      show "p2 = pts ! (i mod length pts)" by (rule p2_def)
      show "\<not> (0 < fudge \<and> fudge_hit fb p1 p2)" using "1.prems"(1) by simp
      show "\<not> 0 < fudge" by (rule "1.prems"(1))
      show "1 \<le> i + 1" by simp
      show "i + 1 \<le> length pts + 1" using True by simp
      show "p2 = pts ! ((i + 1 - 1) mod length pts)" by (simp add: p2_def)
    qed
    have step: "contains_loop pts p fudge fb i p1 counter =
                contains_loop pts p fudge fb (i + 1) p2 c'"
      by (subst contains_loop.simps)
         (use True "1.prems"(1) in \<open>simp add: Let_def p2_def c'_def\<close>)
    show ?thesis
      unfolding step ih dr by (auto simp add: c'_def)
  next
    case False
    have "contains_loop pts p fudge fb i p1 counter = (if counter mod 2 = 0 then -1 else 1)"
      by (subst contains_loop.simps) (use False in simp)
    moreover have "drop (i - 1) (edges pts) = []"
      using False by (simp add: length_edges)
    ultimately show ?thesis by (simp add: even_iff_mod_2_eq_zero)
  qed
qed

lemma contains_parity:
  assumes "pts \<noteq> []"
  shows "contains pts p 0 = Inr (if even (crossings p pts) then -1 else 1)"
proof -
  have "contains_loop pts p 0 fb 1 (pts ! 0) 0 =
     (if even (0 + length (filter (\<lambda>(p1, p2). ray_crosses p p1 p2) (drop (1 - 1) (edges pts))))
      then -1 else 1)" for fb
    by (rule contains_loop_parity) (use assms in simp_all)
  then show ?thesis
    using assms by (simp add: contains_def crossings_def Let_def)
qed

text \<open>
  Claim C9. For a polygon with at least three vertices and any point \<open>p\<close>,
  \<open>Polygon::contains(p, 0)\<close> never returns 0: the edge-proximity checks are all behind
  \<open>fudge > 0\<close>, and the result is \<open>+1\<close> when the number of edges crossed by the ray
  from \<open>p\<close> is odd and \<open>-1\<close> when it is even.
\<close>

theorem polygon_contains_zero_fudge:
  assumes "3 \<le> length pts"
  shows "contains pts p 0 = Inr (if even (crossings p pts) then -1 else 1) \<and>
         contains pts p 0 \<noteq> Inr 0"
proof -
  from assms have "pts \<noteq> []" by auto
  then have "contains pts p 0 = Inr (if even (crossings p pts) then -1 else 1)"
    by (rule contains_parity)
  then show ?thesis by simp
qed

theorem polygon_contains_zero_fudge_witness:
  "3 \<le> length [mkPoint 0 0, mkPoint 4 0, mkPoint 0 4] \<and>
   contains [mkPoint 0 0, mkPoint 4 0, mkPoint 0 4] (mkPoint 1 1) 0 = Inr 1 \<and>
   contains [mkPoint 0 0, mkPoint 4 0, mkPoint 0 4] (mkPoint 5 5) 0 = Inr (- 1)"
  using polygon_contains_zero_fudge [of "[mkPoint 0 0, mkPoint 4 0, mkPoint 0 4]" "mkPoint 1 1"]
        polygon_contains_zero_fudge [of "[mkPoint 0 0, mkPoint 4 0, mkPoint 0 4]" "mkPoint 5 5"]
  by (simp add: crossings_def edges_def ray_crosses_def mkPoint_def)

text \<open>
  Claim C8. \<open>a.intersects(b)\<close> is claimed to be the area of the intersection of the two
  boxes divided by the mean of their areas, a value in \<open>[0, 1]\<close>. For the box
  \<open>a = [0, 10] \<times> [0, 10]\<close> and the box \<open>b = [1, 2] \<times> [1, 2]\<close> inside it, \<open>Box::mid\<close>
  pairs the lower bound of \<open>b\<close> with the upper bound of \<open>a\<close>, so that the function
  takes \<open>[1, 10] \<times> [1, 10]\<close> for the intersection and returns \<open>81 / 50.5\<close>; the
  intersection is \<open>b\<close> itself, of area 1, and the ratio is \<open>1 / 50.5\<close>.
\<close>

theorem intersects_nested_boxes:
  "well_formed (mkBox (mkPoint 0 0) (mkPoint 10 10)) \<and>
   well_formed (mkBox (mkPoint 1 1) (mkPoint 2 2)) \<and>
   intersects (mkBox (mkPoint 0 0) (mkPoint 10 10)) (mkBox (mkPoint 1 1) (mkPoint 2 2))
     = Inr (162 / 101) \<and>
   spec_intersects_ratio (mkBox (mkPoint 0 0) (mkPoint 10 10)) (mkBox (mkPoint 1 1) (mkPoint 2 2))
     = 2 / 101 \<and>
   (162 / 101 :: real) > 1"
  by (simp add: well_formed_def intersects_def mid_def mkBox_def mkPoint_def area_def
      spec_intersects_ratio_def spec_intersection_area_def overlap_len_def Let_def)

section \<open>The public count argument\<close>


lemma sint_neg_32:
  assumes "sint (n::32 word) \<noteq> - (2 ^ 31)"
  shows "sint (- n) = - sint n"
proof -
  have r: "- (2 ^ 31) \<le> sint n" "sint n < 2 ^ 31"
    using sint_range_size[of n] by (simp_all add: word_size)
  have "sint (- n) = signed_take_bit 31 (- sint n)"
    by (simp add: sint_word_ariths)
  also have "\<dots> = - sint n"
    by (rule signed_take_bit_int_eq_self) (use r assms in simp_all)
  finally show ?thesis .
qed

lemma neg_neg_min:
  assumes "sint (n::32 word) < 0" "sint (- n) < 0"
  shows "- n = n"
proof -
  have "sint n = - (2 ^ 31)"
    using sint_neg_32[of n] assms by fastforce
  then have "word_of_int (sint n) = (word_of_int (- (2 ^ 31)) :: 32 word)" by simp
  then have "n = - (2 ^ 31)" by simp
  then show ?thesis by simp
qed


text \<open>
  Claim C10. \<open>newCursor\<close> adjusts \<open>numWanted\<close> before anything else: called with
  a negative \<open>numWanted\<close> it returns what it returns for the absolute value (taken in
  the 32-bit \<open>int\<close>, where the absolute value of every negative number but
  \<open>-2^31\<close> is that number's negation), and called with 0 it returns what it returns
  for 100.
\<close>

theorem newCursor_normalizes_numWanted:
  "(sint n < 0 \<longrightarrow> newCursor geo q ord n = newCursor geo q ord (word_of_int \<bar>sint n\<bar>)) \<and>
   (sint n < 0 \<longrightarrow> sint n \<noteq> - (2 ^ 31) \<longrightarrow> sint (word_of_int \<bar>sint n\<bar> :: 32 word) = \<bar>sint n\<bar>) \<and>
   newCursor geo q ord 0 = newCursor geo q ord 100"
proof (intro conjI impI)
  assume neg: "sint n < 0"
  then have n0: "n \<noteq> 0" by auto
  have w: "(word_of_int \<bar>sint n\<bar> :: 32 word) = - n" using neg by simp
  show "newCursor geo q ord n = newCursor geo q ord (word_of_int \<bar>sint n\<bar>)"
  proof (cases "sint (- n) < 0")
    case True
    then have "- n = n" using neg neg_neg_min by blast
    then have "(word_of_int \<bar>sint n\<bar> :: 32 word) = n" using w by (simp only:)
    then show ?thesis by (simp only:)
  next
    case False
    then show ?thesis using neg n0 by (simp add: w newCursor_def)
  qed
  assume "sint n \<noteq> - (2 ^ 31)"
  then show "sint (word_of_int \<bar>sint n\<bar> :: 32 word) = \<bar>sint n\<bar>"
    using neg w sint_neg_32[of n] by simp
next
  show "newCursor geo q ord 0 = newCursor geo q ord 100"
    by (simp add: newCursor_def)
qed

theorem newCursor_normalizes_numWanted_witness:
  "sint (- 5 :: 32 word) < 0 \<and> sint (- 5 :: 32 word) \<noteq> - (2 ^ 31) \<and>
   newCursor ''loc'' [\<lparr>qe_fieldName = ''loc'',
       qe_value = NearQuery ''$near'' (mkPoint 50 50) None (Some 3) :: unit geo_value\<rparr>] () (- 5)
     = Inr (GeoSearchCursor (mkPoint 50 50) 5 3 GEO_PLAIN) \<and>
   newCursor ''loc'' [\<lparr>qe_fieldName = ''loc'',
       qe_value = NearQuery ''$near'' (mkPoint 50 50) None (Some 3) :: unit geo_value\<rparr>] () 5
     = Inr (GeoSearchCursor (mkPoint 50 50) 5 3 GEO_PLAIN) \<and>
   newCursor ''loc'' [\<lparr>qe_fieldName = ''loc'',
       qe_value = NearQuery ''$nearSphere'' (mkPoint 50 50) None None :: unit geo_value\<rparr>] () 0
     = Inr (GeoSearchCursor (mkPoint 50 50) 100 DBL_MAX GEO_SPHERE)"
  using newCursor_normalizes_numWanted [of "- 5" "''loc''"
      "[\<lparr>qe_fieldName = ''loc'', qe_value = NearQuery ''$near'' (mkPoint 50 50) None (Some 3) :: unit geo_value\<rparr>]" "()"]
    newCursor_normalizes_numWanted [of 0 "''loc''"
      "[\<lparr>qe_fieldName = ''loc'', qe_value = NearQuery ''$nearSphere'' (mkPoint 50 50) None None :: unit geo_value\<rparr>]" "()"]
  by (simp add: newCursor_def)

section \<open>Properties of the nearest-point holder\<close>

lemma set_multiset_insert: "set (multiset_insert g hs) = insert g (set hs)"
  by (induction hs) auto

lemma length_multiset_insert: "length (multiset_insert g hs) = Suc (length hs)"
  by (induction hs) auto

lemma multiset_insert_not_Nil: "multiset_insert g hs \<noteq> []"
  by (cases hs) auto

lemma sorted_multiset_insert:
  "sorted (map gp_exactDistance hs) \<Longrightarrow> sorted (map gp_exactDistance (multiset_insert g hs))"
  by (induction hs) (auto simp: set_multiset_insert)

lemma erase_last_take: "k \<le> length xs \<Longrightarrow> erase_last k xs = Inr (take (length xs - k) xs)"
proof (induction k arbitrary: xs)
  case 0
  then show ?case by simp
next
  case (Suc k)
  then have ne: "xs \<noteq> []" by auto
  have "erase_last k (butlast xs) = Inr (take (length (butlast xs) - k) (butlast xs))"
    using Suc.prems by (intro Suc.IH) simp
  also have "take (length (butlast xs) - k) (butlast xs) = take (length xs - Suc k) xs"
    by (simp add: butlast_conv_take)
  finally show ?case using ne by simp
qed

lemma erase_last_too_many: "length xs < k \<Longrightarrow> erase_last k xs = Inl OutOfRange"
proof (induction k arbitrary: xs)
  case 0
  then show ?case by simp
next
  case (Suc k)
  show ?case
  proof (cases xs rule: rev_cases)
    case Nil
    then show ?thesis by simp
  next
    case (snoc ys y)
    then have "length (butlast xs) < k" using Suc.prems by simp
    then show ?thesis using snoc Suc.IH[of "butlast xs"] by simp
  qed
qed

lemma unat_pos_sint:
  assumes "0 < sint (n :: 32 word)"
  shows "0 < unat n" "unat n < 2147483648"
proof -
  have lt: "sint n < 2147483648" using sint_lt[of n] by simp
  have "uint n = take_bit 32 (sint n)" using uint_sint[of n] by simp
  also have "\<dots> = sint n"
    by (rule take_bit_int_eq_self) (use assms lt in simp_all)
  finally have u: "uint n = sint n" .
  have "int (unat n) = sint n" using u by simp
  then show "0 < unat n" "unat n < 2147483648" using assms lt by linarith+
qed

lemma sint_word_of_int_32:
  assumes "- 2147483648 \<le> k" "k < 2147483648"
  shows "sint (word_of_int k :: 32 word) = k"
proof -
  have "sint (word_of_int k :: 32 word) = signed_take_bit 31 k"
    by (simp add: sint_sbintrunc')
  also have "\<dots> = k"
    by (rule signed_take_bit_int_eq_self) (use assms in simp_all)
  finally show ?thesis .
qed

lemma numToErase_eq:
  assumes "len \<le> unat (m :: 32 word) + 1" "unat m < 2147483648"
  shows "sint (word_of_nat len - m :: 32 word) = int len - int (unat m)"
proof -
  have "(word_of_nat len - m :: 32 word) = word_of_int (int len - int (unat m))"
    by simp
  moreover have "- 2147483648 \<le> int len - int (unat m)" "int len - int (unat m) < 2147483648"
    using assms by linarith+
  ultimately show ?thesis using sint_word_of_int_32 by metis
qed


lemma exactDistances_loop_spec:
  assumes "exactDistances_loop env st locs m w = Inr (m', w')"
  shows "(\<forall>l\<in>set locs. 0 \<le> fst (exact_of env st l)) \<and>
         ((m' = m \<and> w' = w) \<or>
          (\<exists>l\<in>set locs. snd (exact_of env st l) \<and> fst (exact_of env st l) = m' \<and> w')) \<and>
         (\<forall>l\<in>set locs. snd (exact_of env st l) \<longrightarrow> 0 \<le> m' \<and> m' \<le> fst (exact_of env st l)) \<and>
         (0 \<le> m \<longrightarrow> 0 \<le> m' \<and> m' \<le> m) \<and>
         ((\<forall>l\<in>set locs. \<not> snd (exact_of env st l)) \<longrightarrow> m' = m \<and> w' = w)"
  using assms
proof (induction locs arbitrary: m w)
  case Nil
  then show ?case by simp
next
  case (Cons loc locs)
  obtain d ew where e: "exact_of env st loc = (d, ew)" by (cases "exact_of env st loc")
  from Cons.prems e have d0: "0 \<le> d" by (auto split: if_splits)
  show ?case
  proof (cases ew)
    case False
    with Cons.prems e d0 have "exactDistances_loop env st locs m w = Inr (m', w')" by simp
    from Cons.IH[OF this] e False d0 show ?thesis by auto
  next
    case True
    show ?thesis
    proof (cases "m < 0 \<or> m > d")
      case upd: True
      with Cons.prems e d0 \<open>ew\<close> have "exactDistances_loop env st locs d ew = Inr (m', w')"
        by simp
      from Cons.IH[OF this] e True d0 upd show ?thesis by auto
    next
      case keep: False
      with Cons.prems e d0 \<open>ew\<close> have "exactDistances_loop env st locs m w = Inr (m', w')"
        by simp
      from Cons.IH[OF this] e True d0 keep show ?thesis by auto
    qed
  qed
qed

lemma exactDistances_loop_total:
  assumes "\<forall>l\<in>set locs. 0 \<le> fst (exact_of env st l)"
  shows "\<exists>r. exactDistances_loop env st locs m w = Inr r"
  using assms
  by (induction locs arbitrary: m w) (auto simp: case_prod_unfold Let_def)

lemma has_within_iff: "has_within env st loc \<longleftrightarrow> within_dists env st loc \<noteq> []"
  by (auto simp: has_within_def within_dists_def list_ex_iff filter_empty_conv)

lemma set_within_dists:
  "set (within_dists env st loc) =
     {fst (exact_of env st l) | l. l \<in> set (e_getKeys env loc) \<and> snd (exact_of env st l)}"
  by (auto simp: within_dists_def image_iff)

lemma exactDistances_spec:
  assumes "exactDistances env node st = Inr (md, st')"
  shows "(\<forall>l\<in>set (e_getKeys env (kn_recordLoc node)). 0 \<le> fst (exact_of env st l)) \<and>
         (if has_within env st (kn_recordLoc node)
          then 0 \<le> md \<and> st' = st\<lparr>h_points := multiset_insert (new_point env st node) (h_points st)\<rparr>
          else md < 0 \<and> st' = st)"
proof -
  let ?locs = "e_getKeys env (kn_recordLoc node)"
  from assms obtain m' w' where
    loop: "exactDistances_loop env st ?locs (- 1) False = Inr (m', w')"
    by (auto simp: exactDistances_def split: sum.splits)
  note sp = exactDistances_loop_spec[OF loop]
  show ?thesis
  proof (cases "has_within env st (kn_recordLoc node)")
    case False
    then have "\<forall>l\<in>set ?locs. \<not> snd (exact_of env st l)"
      by (auto simp: has_within_def list_ex_iff)
    with sp have "m' = - 1" by blast
    with assms loop False sp show ?thesis by (auto simp: exactDistances_def)
  next
    case True
    then obtain l0 where l0: "l0 \<in> set ?locs" "snd (exact_of env st l0)"
      by (auto simp: has_within_def list_ex_iff)
    with sp have m0: "0 \<le> m'" by blast
    with sp have ex: "\<exists>l\<in>set ?locs. snd (exact_of env st l) \<and> fst (exact_of env st l) = m' \<and> w'"
      by auto
    have "Min (set (within_dists env st (kn_recordLoc node))) = m'"
    proof (rule Min_eqI)
      show "finite (set (within_dists env st (kn_recordLoc node)))" by simp
      show "m' \<le> y" if "y \<in> set (within_dists env st (kn_recordLoc node))" for y
        using that sp by (auto simp: set_within_dists)
      show "m' \<in> set (within_dists env st (kn_recordLoc node))"
        using ex by (auto simp: set_within_dists)
    qed
    then have "new_point env st node =
        \<lparr>gp_key = kn_key node, gp_loc = kn_recordLoc node,
         gp_exactDistance = m', gp_exactWithin = w'\<rparr>"
      using ex by (auto simp: new_point_def)
    with assms loop m0 True sp show ?thesis by (auto simp: exactDistances_def)
  qed
qed

lemma exactDistances_total:
  assumes "\<forall>l\<in>set (e_getKeys env (kn_recordLoc node)). 0 \<le> fst (exact_of env st l)"
  shows "\<exists>r. exactDistances env node st = Inr r"
proof -
  from exactDistances_loop_total[OF assms] obtain r where
    "exactDistances_loop env st (e_getKeys env (kn_recordLoc node)) (- 1) False = Inr r"
    by blast
  then show ?thesis by (cases r) (auto simp: exactDistances_def)
qed


lemma exact_of_cong:
  "h_type st = h_type st' \<Longrightarrow> h_near st = h_near st' \<Longrightarrow> h_maxDistance st = h_maxDistance st'
   \<Longrightarrow> exact_of env st = exact_of env st'"
  by (rule ext) (simp add: exact_of_def split: GeoDistType.split)

lemma within_dists_cong:
  "h_type st = h_type st' \<Longrightarrow> h_near st = h_near st' \<Longrightarrow> h_maxDistance st = h_maxDistance st'
   \<Longrightarrow> within_dists env st = within_dists env st'"
  by (rule ext) (simp add: within_dists_def exact_of_cong[of st st'])

lemma addSpecific_spec:
  assumes "addSpecific env node d True st = Inr st'"
    and len: "length (h_points st) \<le> unat (h_max st)"
    and pos: "0 < unat (h_max st)" and small: "unat (h_max st) < 2147483648"
  shows "if has_within env st (kn_recordLoc node)
         then st' = st\<lparr>h_points :=
                        take (unat (h_max st)) (multiset_insert (new_point env st node) (h_points st)),
                      h_farthest := gp_exactDistance (last
                        (take (unat (h_max st))
                           (multiset_insert (new_point env st node) (h_points st))))\<rparr>
         else st' = st"
proof -
  from assms(1) obtain md s1 where ex: "exactDistances env node st = Inr (md, s1)"
    by (auto simp: addSpecific_def split: sum.splits)
  note sp = exactDistances_spec[OF ex]
  show ?thesis
  proof (cases "has_within env st (kn_recordLoc node)")
    case False
    with sp have "md < 0" "s1 = st" by auto
    with assms(1) ex False show ?thesis by (simp add: addSpecific_def)
  next
    case True
    let ?ins = "multiset_insert (new_point env st node) (h_points st)"
    from True sp have md: "0 \<le> md" and s1: "s1 = st\<lparr>h_points := ?ins\<rparr>" by auto
    have l: "length ?ins \<le> unat (h_max st) + 1"
      using len by (simp add: length_multiset_insert)
    have nte: "sint (word_of_nat (length ?ins) - h_max st :: 32 word)
                 = int (length ?ins) - int (unat (h_max st))"
      by (rule numToErase_eq[OF l small])
    have k: "nat (int (length ?ins) - int (unat (h_max st))) \<le> length ?ins" by linarith
    have "length ?ins - nat (int (length ?ins) - int (unat (h_max st)))
            = min (length ?ins) (unat (h_max st))"
      by linarith
    then have er: "erase_last (nat (int (length ?ins) - int (unat (h_max st)))) ?ins
            = Inr (take (unat (h_max st)) ?ins)"
      using erase_last_take[OF k] by (simp add: min_def split: if_splits)
    have ne: "take (unat (h_max st)) ?ins \<noteq> []"
      using pos multiset_insert_not_Nil[of "new_point env st node" "h_points st"] by simp
    from assms(1) ex md s1 nte er ne True show ?thesis
      by (simp add: addSpecific_def Let_def)
  qed
qed

lemma addSpecific_total:
  assumes "\<forall>l\<in>set (e_getKeys env (kn_recordLoc node)). 0 \<le> fst (exact_of env st l)"
    and len: "length (h_points st) \<le> unat (h_max st)"
    and pos: "0 < unat (h_max st)" and small: "unat (h_max st) < 2147483648"
  shows "\<exists>st'. addSpecific env node d newDoc st = Inr st'"
proof (cases newDoc)
  case False
  then show ?thesis by (simp add: addSpecific_def)
next
  case True
  from exactDistances_total[OF assms(1)] obtain md s1 where
    ex: "exactDistances env node st = Inr (md, s1)" by force
  note sp = exactDistances_spec[OF ex]
  show ?thesis
  proof (cases "has_within env st (kn_recordLoc node)")
    case False
    with sp have "md < 0" "s1 = st" by auto
    with ex True show ?thesis by (simp add: addSpecific_def)
  next
    case hw: True
    let ?ins = "multiset_insert (new_point env st node) (h_points st)"
    from hw sp have md: "0 \<le> md" and s1: "s1 = st\<lparr>h_points := ?ins\<rparr>" by auto
    have l: "length ?ins \<le> unat (h_max st) + 1"
      using len by (simp add: length_multiset_insert)
    have nte: "sint (word_of_nat (length ?ins) - h_max st :: 32 word)
                 = int (length ?ins) - int (unat (h_max st))"
      by (rule numToErase_eq[OF l small])
    have k: "nat (int (length ?ins) - int (unat (h_max st))) \<le> length ?ins" by linarith
    have "length ?ins - nat (int (length ?ins) - int (unat (h_max st)))
            = min (length ?ins) (unat (h_max st))"
      by linarith
    then have er: "erase_last (nat (int (length ?ins) - int (unat (h_max st)))) ?ins
            = Inr (take (unat (h_max st)) ?ins)"
      using erase_last_take[OF k] by (simp add: min_def split: if_splits)
    have ne: "take (unat (h_max st)) ?ins \<noteq> []"
      using pos multiset_insert_not_Nil[of "new_point env st node" "h_points st"] by simp
    from ex md s1 nte er ne True show ?thesis
      by (simp add: addSpecific_def Let_def)
  qed
qed


lemma checkDistance_cong:
  "h_type s = h_type st \<Longrightarrow> h_near s = h_near st \<Longrightarrow> h_maxDistance s = h_maxDistance st \<Longrightarrow>
   h_distError s = h_distError st \<Longrightarrow> h_points s = h_points st \<Longrightarrow> h_max s = h_max st \<Longrightarrow>
   h_farthest s = h_farthest st \<Longrightarrow> checkDistance env node s = checkDistance env node st"
  by (simp add: checkDistance_def approxDistance_def Let_def split: GeoDistType.split)

lemma new_point_cong:
  "h_type s = h_type st \<Longrightarrow> h_near s = h_near st \<Longrightarrow> h_maxDistance s = h_maxDistance st
   \<Longrightarrow> new_point env s node = new_point env st node"
  by (simp add: new_point_def within_dists_cong[of s st])

lemma has_within_cong:
  "h_type s = h_type st \<Longrightarrow> h_near s = h_near st \<Longrightarrow> h_maxDistance s = h_maxDistance st
   \<Longrightarrow> has_within env s loc = has_within env st loc"
  by (simp add: has_within_iff within_dists_cong[of s st])

lemma addSpecific_spec':
  assumes "addSpecific env node d True s = Inr s'"
    and "h_type s = h_type st" "h_near s = h_near st" "h_maxDistance s = h_maxDistance st"
    and "h_points s = h_points st" "h_max s = h_max st"
    and len: "length (h_points st) \<le> unat (h_max st)"
    and pos: "0 < unat (h_max st)" and small: "unat (h_max st) < 2147483648"
  shows "h_points s' = (if has_within env st (kn_recordLoc node)
            then take (unat (h_max st)) (multiset_insert (new_point env st node) (h_points st))
            else h_points st)"
    and "h_max s' = h_max s" "h_near s' = h_near s" "h_maxDistance s' = h_maxDistance s"
        "h_type s' = h_type s" "h_distError s' = h_distError s"
        "acc_matched s' = acc_matched s" "acc_seen s' = acc_seen s"
proof -
  have a: "length (h_points s) \<le> unat (h_max s)" "0 < unat (h_max s)" "unat (h_max s) < 2147483648"
    using assms by simp_all
  note sp = addSpecific_spec[OF assms(1) a]
  have hw: "has_within env s (kn_recordLoc node) = has_within env st (kn_recordLoc node)"
    using assms by (intro has_within_cong) simp_all
  have np: "new_point env s node = new_point env st node"
    using assms by (intro new_point_cong) simp_all
  show "h_points s' = (if has_within env st (kn_recordLoc node)
            then take (unat (h_max st)) (multiset_insert (new_point env st node) (h_points st))
            else h_points st)"
    using sp hw np assms(2-6) by (auto split: if_splits)
  show "h_max s' = h_max s" "h_near s' = h_near s" "h_maxDistance s' = h_maxDistance s"
        "h_type s' = h_type s" "h_distError s' = h_distError s"
        "acc_matched s' = acc_matched s" "acc_seen s' = acc_seen s"
    using sp by (auto split: if_splits)
qed

lemma addSpecific_False: "addSpecific env node d False s = Inr s"
  by (simp add: addSpecific_def)

lemma hopper_add_reject:
  assumes "hopper_add env node st = Inr st'" "\<not> accepts env node st"
  shows "h_points st' = h_points st \<and> h_max st' = h_max st \<and> h_near st' = h_near st \<and>
         h_maxDistance st' = h_maxDistance st \<and> h_type st' = h_type st \<and>
         h_distError st' = h_distError st \<and>
         (\<forall>l. acc_matched st l \<noteq> None \<longrightarrow> acc_matched st' l = acc_matched st l) \<and>
         (\<forall>l. acc_matched st' l = Some True \<longrightarrow> acc_matched st l = Some True)"
proof (cases "(kn_key node, kn_recordLoc node) \<in> acc_seen st")
  case True
  with assms show ?thesis by (simp add: hopper_add_def add_def)
next
  case False
  have cd: "checkDistance env node (st\<lparr>acc_seen := insert (kn_key node, kn_recordLoc node) (acc_seen st),
                    acc_lookedAt := acc_lookedAt st + 1\<rparr>) = checkDistance env node st"
    by (rule checkDistance_cong) simp_all
  from assms False obtain good d where gd: "checkDistance env node st = Inr (good, d)"
    by (cases "checkDistance env node st")
       (auto simp: hopper_add_def add_def Let_def cd)
  show ?thesis
    using assms False gd cd
    apply (simp add: hopper_add_def add_def Let_def accepts_def)
    apply (auto simp: add_accept_def addSpecific_False
             split: if_splits option.splits prod.splits sum.splits bool.splits)
    done
qed

lemma hopper_add_accept:
  assumes add: "hopper_add env node st = Inr st'" and acc: "accepts env node st"
  obtains s s' d where "addSpecific env node d True s = Inr s'"
    "st' = s'\<lparr>acc_found := acc_found s' + 1\<rparr>"
    "h_points s = h_points st" "h_max s = h_max st" "h_near s = h_near st"
    "h_maxDistance s = h_maxDistance st" "h_type s = h_type st"
    "h_distError s = h_distError st"
    "acc_matched s = (acc_matched st)(kn_recordLoc node \<mapsto> True)"
proof -
  let ?s1 = "st\<lparr>acc_seen := insert (kn_key node, kn_recordLoc node) (acc_seen st),
                    acc_lookedAt := acc_lookedAt st + 1\<rparr>"
  have cd: "checkDistance env node ?s1 = checkDistance env node st"
    by (rule checkDistance_cong) simp_all
  from acc have unseen: "(kn_key node, kn_recordLoc node) \<notin> acc_seen st"
    and none: "acc_matched st (kn_recordLoc node) = None"
    by (simp_all add: accepts_def)
  from acc obtain d where gd: "checkDistance env node st = Inr (True, d)"
    by (auto simp: accepts_def split: sum.splits)
  show thesis
  proof (cases "e_matcher env")
    case None
    let ?s = "?s1\<lparr>acc_matched := (acc_matched st)(kn_recordLoc node \<mapsto> True),
                    acc_objectsLoaded := acc_objectsLoaded st + 1\<rparr>"
    from add unseen none gd cd None
    have "add_accept (addSpecific env) node d True ?s = Inr st'"
      by (simp add: hopper_add_def add_def Let_def)
    then obtain s' where "addSpecific env node d True ?s = Inr s'"
      "st' = s'\<lparr>acc_found := acc_found s' + 1\<rparr>"
      by (auto simp: add_accept_def split: sum.splits)
    then show ?thesis by (rule that) simp_all
  next
    case (Some m)
    with acc obtain lo where m: "m (kn_key node) (kn_recordLoc node) = (True, lo)"
      by (cases "m (kn_key node) (kn_recordLoc node)") (auto simp: accepts_def)
    show ?thesis
    proof (cases lo)
      case True
      let ?s = "?s1\<lparr>acc_objectsLoaded := acc_objectsLoaded st + 1,
                      acc_matched := (acc_matched st)(kn_recordLoc node \<mapsto> True)\<rparr>"
      from add unseen none gd cd Some m True
      have "add_accept (addSpecific env) node d True ?s = Inr st'"
        by (simp add: hopper_add_def add_def Let_def)
      then obtain s' where "addSpecific env node d True ?s = Inr s'"
        "st' = s'\<lparr>acc_found := acc_found s' + 1\<rparr>"
        by (auto simp: add_accept_def split: sum.splits)
      then show ?thesis by (rule that) simp_all
    next
      case False
      let ?s = "?s1\<lparr>acc_matched := (acc_matched st)(kn_recordLoc node \<mapsto> True),
                      acc_objectsLoaded := acc_objectsLoaded st + 1\<rparr>"
      from add unseen none gd cd Some m False
      have "add_accept (addSpecific env) node d True ?s = Inr st'"
        by (simp add: hopper_add_def add_def Let_def)
      then obtain s' where "addSpecific env node d True ?s = Inr s'"
        "st' = s'\<lparr>acc_found := acc_found s' + 1\<rparr>"
        by (auto simp: add_accept_def split: sum.splits)
      then show ?thesis by (rule that) simp_all
    qed
  qed
qed


lemma distinct_loc_multiset_insert:
  "distinct (map gp_loc (multiset_insert g hs)) \<longleftrightarrow>
     gp_loc g \<notin> gp_loc ` set hs \<and> distinct (map gp_loc hs)"
  by (induction hs) (auto simp: set_multiset_insert)

lemma hopper_add_inv:
  assumes add: "hopper_add env node st = Inr st'"
    and inv: "hopper_inv env st0 st"
    and pos: "0 < unat (h_max st0)" and small: "unat (h_max st0) < 2147483648"
  shows "hopper_inv env st0 st' \<and>
         length (h_points st') =
           min (unat (h_max st0)) (length (h_points st) + (if qualifies env node st then 1 else 0))"
proof (cases "accepts env node st")
  case False
  then have nq: "\<not> qualifies env node st" by (simp add: qualifies_def)
  note rj = hopper_add_reject[OF add False]
  have "acc_matched st' (gp_loc g) = Some True" if "g \<in> set (h_points st)" for g
  proof -
    from that inv have "acc_matched st (gp_loc g) = Some True" by (simp add: hopper_inv_def)
    moreover from rj have "acc_matched st (gp_loc g) \<noteq> None \<longrightarrow>
        acc_matched st' (gp_loc g) = acc_matched st (gp_loc g)"
      by blast
    ultimately show ?thesis by simp
  qed
  with rj inv nq show ?thesis
    by (auto simp: hopper_inv_def)
next
  case True
  from inv have f: "h_max st = h_max st0" "h_near st = h_near st0"
      "h_maxDistance st = h_maxDistance st0" "h_type st = h_type st0"
      "h_distError st = h_distError st0"
    and len: "length (h_points st) \<le> unat (h_max st)"
    and srt: "sorted (map gp_exactDistance (h_points st))"
    and dst: "distinct (map gp_loc (h_points st))"
    and pts: "\<forall>g\<in>set (h_points st).
        acc_matched st (gp_loc g) = Some True \<and> gp_exactWithin g \<and>
        within_dists env st0 (gp_loc g) \<noteq> [] \<and>
        gp_exactDistance g = Min (set (within_dists env st0 (gp_loc g)))"
    by (auto simp: hopper_inv_def)
  from True have none: "acc_matched st (kn_recordLoc node) = None"
    by (simp add: accepts_def)
  have fresh: "kn_recordLoc node \<notin> gp_loc ` set (h_points st)"
    using pts none by force
  have wd: "within_dists env st = within_dists env st0"
    using f by (intro within_dists_cong) simp_all
  from hopper_add_accept[OF add True] obtain s s' d where
    as: "addSpecific env node d True s = Inr s'"
    and st': "st' = s'\<lparr>acc_found := acc_found s' + 1\<rparr>"
    and sf: "h_points s = h_points st" "h_max s = h_max st" "h_near s = h_near st"
      "h_maxDistance s = h_maxDistance st" "h_type s = h_type st"
      "h_distError s = h_distError st"
    and sm: "acc_matched s = (acc_matched st)(kn_recordLoc node \<mapsto> True)"
    by blast
  have p1: "0 < unat (h_max st)" and p2: "unat (h_max st) < 2147483648"
    using pos small f by simp_all
  note sp = addSpecific_spec'[OF as sf(5) sf(3) sf(4) sf(1) sf(2) len p1 p2]
  have fields: "h_max st' = h_max st0" "h_near st' = h_near st0"
      "h_maxDistance st' = h_maxDistance st0" "h_type st' = h_type st0"
      "h_distError st' = h_distError st0"
    using sp sf f st' by simp_all
  have m': "acc_matched st' = (acc_matched st)(kn_recordLoc node \<mapsto> True)"
    using sp sm st' by simp
  show ?thesis
  proof (cases "has_within env st (kn_recordLoc node)")
    case False
    then have nq: "\<not> qualifies env node st" by (simp add: qualifies_def)
    from False sp st' have "h_points st' = h_points st" by simp
    with fields m' nq len srt dst pts f none show ?thesis
      by (auto simp: hopper_inv_def)
  next
    case hw: True
    then have q: "qualifies env node st" using True by (simp add: qualifies_def)
    let ?g = "new_point env st node"
    let ?ins = "multiset_insert ?g (h_points st)"
    from hw sp st' have hp: "h_points st' = take (unat (h_max st)) ?ins" by simp
    have gl: "gp_loc ?g = kn_recordLoc node" by (simp add: new_point_def)
    have s1: "sorted (map gp_exactDistance (h_points st'))"
      unfolding hp take_map[symmetric] by (intro sorted_wrt_take sorted_multiset_insert srt) 
    have d1: "distinct (map gp_loc (h_points st'))"
      unfolding hp take_map[symmetric]
      by (intro distinct_take) (simp add: distinct_loc_multiset_insert gl fresh dst)
    have sub: "set (h_points st') \<subseteq> insert ?g (set (h_points st))"
      unfolding hp using set_take_subset[of "unat (h_max st)" ?ins]
      by (simp add: set_multiset_insert)
    have gprops: "acc_matched st' (gp_loc ?g) = Some True \<and> gp_exactWithin ?g \<and>
        within_dists env st0 (gp_loc ?g) \<noteq> [] \<and>
        gp_exactDistance ?g = Min (set (within_dists env st0 (gp_loc ?g)))"
      using hw m' wd by (simp add: new_point_def has_within_iff)
    have oprops: "acc_matched st' (gp_loc g) = Some True \<and> gp_exactWithin g \<and>
        within_dists env st0 (gp_loc g) \<noteq> [] \<and>
        gp_exactDistance g = Min (set (within_dists env st0 (gp_loc g)))"
      if "g \<in> set (h_points st)" for g
      using that pts m' by simp
    have all: "\<forall>g\<in>set (h_points st').
        acc_matched st' (gp_loc g) = Some True \<and> gp_exactWithin g \<and>
        within_dists env st0 (gp_loc g) \<noteq> [] \<and>
        gp_exactDistance g = Min (set (within_dists env st0 (gp_loc g)))"
    proof
      fix g assume "g \<in> set (h_points st')"
      with sub have "g = ?g \<or> g \<in> set (h_points st)" by auto
      then show "acc_matched st' (gp_loc g) = Some True \<and> gp_exactWithin g \<and>
        within_dists env st0 (gp_loc g) \<noteq> [] \<and>
        gp_exactDistance g = Min (set (within_dists env st0 (gp_loc g)))"
        using gprops oprops by blast
    qed
    have l1: "length (h_points st') = min (unat (h_max st0)) (length (h_points st) + 1)"
      unfolding hp using f by (simp add: length_multiset_insert min_def)
    then have l2: "length (h_points st') \<le> unat (h_max st')" using fields by simp
    show ?thesis
      using fields l1 l2 s1 d1 all q by (simp add: hopper_inv_def)
  qed
qed

lemma exact_of_nonneg:
  assumes "\<forall>p q. 0 \<le> e_distance env p q \<and> 0 \<le> e_spheredist_deg env p q"
  shows "0 \<le> fst (exact_of env st l)"
  using assms by (simp add: exact_of_def Let_def split: GeoDistType.split)

lemma addSpecific_ok:
  assumes "\<forall>p q. 0 \<le> e_distance env p q \<and> 0 \<le> e_spheredist_deg env p q"
    and "length (h_points s) \<le> unat (h_max s)"
    and "0 < unat (h_max s)" and "unat (h_max s) < 2147483648"
  shows "\<not> isl (addSpecific env node d newDoc s)"
proof -
  have "\<forall>l\<in>set (e_getKeys env (kn_recordLoc node)). 0 \<le> fst (exact_of env s l)"
    using exact_of_nonneg[OF assms(1)] by blast
  from addSpecific_total[OF this assms(2-4)] show ?thesis by (metis sum.disc(2))
qed

lemma add_accept_ok:
  "\<not> isl (addSpecific env node d nd s) \<Longrightarrow> \<not> isl (add_accept (addSpecific env) node d nd s)"
  by (auto simp: add_accept_def split: sum.splits)

lemma hopper_add_total:
  assumes nonneg: "\<forall>p q. 0 \<le> e_distance env p q \<and> 0 \<le> e_spheredist_deg env p q"
    and len: "length (h_points st) \<le> unat (h_max st)"
    and pos: "0 < unat (h_max st)" and small: "unat (h_max st) < 2147483648"
  shows "\<exists>st'. hopper_add env node st = Inr st'"
proof -
  have cd: "checkDistance env node (st\<lparr>acc_seen := insert (kn_key node, kn_recordLoc node) (acc_seen st),
                    acc_lookedAt := acc_lookedAt st + 1\<rparr>) = checkDistance env node st"
    by (rule checkDistance_cong) simp_all
  have "0 \<le> approxDistance env node st"
    using nonneg by (simp add: approxDistance_def split: GeoDistType.split)
  then obtain good d where gd: "checkDistance env node st = Inr (good, d)"
    by (simp add: checkDistance_def Let_def)
  have ok: "\<not> isl (add_accept (addSpecific env) node d nd s)"
    if "h_points s = h_points st" "h_max s = h_max st" for s nd
    by (rule add_accept_ok, rule addSpecific_ok[OF nonneg]) (use that len pos small in simp_all)
  have "\<not> isl (hopper_add env node st)"
    unfolding hopper_add_def add_def
    by (simp add: Let_def cd gd ok split: option.split prod.split bool.split)
  then show ?thesis by (cases "hopper_add env node st") auto
qed

lemma hopper_run_inv:
  assumes "hopper_run env nodes st = Inr st'"
    and "hopper_inv env st0 st"
    and "0 < unat (h_max st0)" and "unat (h_max st0) < 2147483648"
  shows "hopper_inv env st0 st' \<and>
         length (h_points st') =
           min (unat (h_max st0)) (length (h_points st) + qualifying env nodes st)"
  using assms(1,2)
proof (induction nodes arbitrary: st)
  case Nil
  then show ?case by (auto simp: hopper_inv_def)
next
  case (Cons node nodes)
  from Cons.prems(1) obtain s1 where a: "hopper_add env node st = Inr s1"
    and r: "hopper_run env nodes s1 = Inr st'"
    by (auto split: sum.splits)
  from hopper_add_inv[OF a Cons.prems(2) assms(3,4)]
  have i1: "hopper_inv env st0 s1"
    and l1: "length (h_points s1) =
           min (unat (h_max st0)) (length (h_points st) + (if qualifies env node st then 1 else 0))"
    by simp_all
  from Cons.IH[OF r i1] l1 a show ?case by (auto simp: min_def)
qed

lemma hopper_run_total:
  assumes nonneg: "\<forall>p q. 0 \<le> e_distance env p q \<and> 0 \<le> e_spheredist_deg env p q"
    and "hopper_inv env st0 st"
    and "0 < unat (h_max st0)" and "unat (h_max st0) < 2147483648"
  shows "\<exists>st'. hopper_run env nodes st = Inr st'"
  using assms(2)
proof (induction nodes arbitrary: st)
  case Nil
  then show ?case by simp
next
  case (Cons node nodes)
  then have f: "h_max st = h_max st0" "length (h_points st) \<le> unat (h_max st)"
    by (auto simp: hopper_inv_def)
  from hopper_add_total[OF nonneg f(2)] assms(3,4) f(1)
  obtain s1 where a: "hopper_add env node st = Inr s1" by auto
  from hopper_add_inv[OF a Cons.prems assms(3,4)] have "hopper_inv env st0 s1" by simp
  from Cons.IH[OF this] a show ?case by simp
qed

lemma hopper_inv_init:
  "hopper_inv env (GeoHopper_init env n P R type) (GeoHopper_init env n P R type)"
  by (simp add: hopper_inv_def GeoHopper_init_def)

lemma cursor_emit_rest: "cursor_emit c = c_rest c"
proof (induction "c_rest c" arbitrary: c)
  case Nil
  then show ?case by (subst cursor_emit.simps) (simp add: cursor_ok_def)
next
  case (Cons g gs)
  have "c_rest (cursor_advance c) = gs"
    using Cons(2)[symmetric] by (simp add: cursor_advance_def Let_def)
  with Cons(1)[of "cursor_advance c"] have "cursor_emit (cursor_advance c) = gs" by simp
  with Cons(2)[symmetric] show ?case
    by (subst cursor_emit.simps) (simp add: cursor_ok_def)
qed

lemma cursor_emit_init: "cursor_emit (cursor_init st) = h_points st"
  by (simp add: cursor_emit_rest cursor_init_def)

lemma planar_vertical: "planar (mkPoint a b) (mkPoint a c) = \<bar>b - c\<bar>"
  by (simp add: planar_def mkPoint_def)

lemma planar_nonneg: "0 \<le> planar p q"
  by (simp add: planar_def)

lemmas sample_simps =
  sample_env_def sample_nodes_def sample_locs_def GeoHopper_init_def hopper_add_def
  add_def add_accept_def checkDistance_def approxDistance_def addSpecific_def exactDistances_def
  exact_of_def planar_vertical Let_def qualifies_def accepts_def has_within_def

lemma held_point_within:
  assumes inv: "hopper_inv env st0 st" and g: "g \<in> set (h_points st)"
  obtains l where "l \<in> set (e_getKeys env (gp_loc g))" "snd (exact_of env st0 l)"
    "fst (exact_of env st0 l) = gp_exactDistance g"
    "\<forall>l'\<in>set (e_getKeys env (gp_loc g)). snd (exact_of env st0 l') \<longrightarrow>
        gp_exactDistance g \<le> fst (exact_of env st0 l')"
proof -
  let ?W = "within_dists env st0 (gp_loc g)"
  from inv g have ne: "?W \<noteq> []" and m: "gp_exactDistance g = Min (set ?W)"
    by (auto simp: hopper_inv_def)
  from ne have "Min (set ?W) \<in> set ?W" by (intro Min_in) simp_all
  with m obtain l where l: "l \<in> set (e_getKeys env (gp_loc g))" "snd (exact_of env st0 l)"
    "fst (exact_of env st0 l) = gp_exactDistance g"
    by (auto simp: set_within_dists)
  have "gp_exactDistance g \<le> fst (exact_of env st0 l')"
    if "l' \<in> set (e_getKeys env (gp_loc g))" "snd (exact_of env st0 l')" for l'
  proof -
    from that have "fst (exact_of env st0 l') \<in> set ?W" by (auto simp: set_within_dists)
    then show ?thesis unfolding m by (intro Min_le) simp_all
  qed
  with l show thesis by (intro that) auto
qed

text \<open>
  The result set for a positive count. A nearest-point query with centre \<open>P\<close>, count
  \<open>n\<close> (a positive \<open>int\<close>) and maximum distance \<open>R\<close> builds \<open>GeoHopper(g, n, P, filter, R, type)\<close> and feeds it
  the key nodes of the index scan. Whatever the sequence of key nodes, the run ends
  without an exception, and the set it holds, which is what \<open>GeoSearchCursor\<close> emits,
  has at most \<open>n\<close> points, in non-decreasing order of exact distance, no two of one
  document, each with an exact distance of at most \<open>R\<close>, and exactly
  \<open>min n q\<close> of them, \<open>q\<close> being the number of candidates that qualify: key nodes
  not seen before that pass the approximate distance check when they arrive and whose
  document is new, matches the filter and has a location within \<open>R\<close>. The distance
  functions are those of \<open>Point\<close>, which never return a negative number, and
  \<open>distanceWithin\<close> accepts only points at a distance of at most the radius.
\<close>

theorem nearest_result_set:
  assumes n: "0 < sint n"
    and nonneg: "\<forall>p q. 0 \<le> e_distance env p q \<and> 0 \<le> e_spheredist_deg env p q"
    and within: "\<forall>p q r. e_distanceWithin env p q r \<longrightarrow> e_distance env p q \<le> r"
  shows "\<exists>st. hopper_run env nodes (GeoHopper_init env n P R type) = Inr st \<and>
           length (h_points st) \<le> unat n \<and>
           sorted (map gp_exactDistance (h_points st)) \<and>
           distinct (map gp_loc (h_points st)) \<and>
           (\<forall>g\<in>set (h_points st). gp_exactDistance g \<le> R) \<and>
           length (h_points st) =
             min (unat n) (qualifying env nodes (GeoHopper_init env n P R type)) \<and>
           cursor_emit (cursor_init st) = h_points st"
proof -
  let ?st0 = "GeoHopper_init env n P R type"
  have m: "h_max ?st0 = n" "h_maxDistance ?st0 = R" "h_points ?st0 = []" "h_type ?st0 = type"
    by (simp_all add: GeoHopper_init_def)
  have pos: "0 < unat (h_max ?st0)" and small: "unat (h_max ?st0) < 2147483648"
    using unat_pos_sint[OF n] m by simp_all
  from hopper_run_total[OF nonneg hopper_inv_init pos small]
  obtain st where run: "hopper_run env nodes ?st0 = Inr st" by blast
  from hopper_run_inv[OF run hopper_inv_init pos small]
  have inv: "hopper_inv env ?st0 st"
    and len: "length (h_points st) = min (unat n) (qualifying env nodes ?st0)"
    using m by simp_all
  have le: "gp_exactDistance g \<le> R" if "g \<in> set (h_points st)" for g
  proof -
    from held_point_within[OF inv that] obtain l where
      l: "snd (exact_of env ?st0 l)" "fst (exact_of env ?st0 l) = gp_exactDistance g"
      by blast
    with within show ?thesis
      by (cases type) (force simp: exact_of_def Let_def GeoHopper_init_def)+
  qed
  from inv have "sorted (map gp_exactDistance (h_points st))"
    "distinct (map gp_loc (h_points st))"
    by (auto simp: hopper_inv_def)
  with run len le show ?thesis
    by (auto simp: cursor_emit_init)
qed

theorem nearest_result_set_witness:
  "0 < sint (2 :: 32 word) \<and>
   (\<exists>st. hopper_run sample_env sample_nodes
            (GeoHopper_init sample_env 2 (mkPoint 50 50) 10 GEO_PLAIN) = Inr st \<and>
      map gp_loc (h_points st) = [1, 2] \<and>
      map gp_exactDistance (h_points st) = [0, 2] \<and>
      length (h_points st) \<le> unat (2 :: 32 word) \<and>
      sorted (map gp_exactDistance (h_points st)) \<and>
      distinct (map gp_loc (h_points st)) \<and>
      (\<forall>g\<in>set (h_points st). gp_exactDistance g \<le> 10) \<and>
      length (h_points st) = min (unat (2 :: 32 word)) 3 \<and>
      cursor_emit (cursor_init st) = h_points st) \<and>
   qualifying sample_env sample_nodes
            (GeoHopper_init sample_env 2 (mkPoint 50 50) 10 GEO_PLAIN) = 3"
proof -
  have q: "qualifying sample_env sample_nodes
            (GeoHopper_init sample_env 2 (mkPoint 50 50) 10 GEO_PLAIN) = 3"
    by (simp add: sample_simps)
  have r: "\<exists>st. hopper_run sample_env sample_nodes
            (GeoHopper_init sample_env 2 (mkPoint 50 50) 10 GEO_PLAIN) = Inr st \<and>
      map gp_loc (h_points st) = [1, 2] \<and> map gp_exactDistance (h_points st) = [0, 2]"
    by (simp add: sample_simps)
  have h1: "0 < sint (2 :: 32 word)" by simp
  have h2: "\<forall>p q. 0 \<le> e_distance sample_env p q \<and> 0 \<le> e_spheredist_deg sample_env p q"
    by (simp add: sample_env_def planar_nonneg)
  have h3: "\<forall>p q r. e_distanceWithin sample_env p q r \<longrightarrow> e_distance sample_env p q \<le> r"
    by (simp add: sample_env_def)
  from nearest_result_set[OF h1 h2 h3, of sample_nodes "mkPoint 50 50" 10 GEO_PLAIN] q r h1
  show ?thesis by auto
qed

text \<open>
  Claim C3. Every point in the result set of a nearest-point query carries, as its exact
  distance, the least distance from the query centre to any location of its document
  (planar or spherical, as the query type says), whatever the key node that brought the
  document in. \<open>distanceWithin\<close> is the comparison of the distance with the radius.
\<close>

theorem exact_distance_is_minimum:
  assumes n: "0 < sint n"
    and within: "\<forall>p q r. e_distanceWithin env p q r \<longleftrightarrow> e_distance env p q \<le> r"
    and run: "hopper_run env nodes (GeoHopper_init env n P R type) = Inr st"
    and g: "g \<in> set (h_points st)"
  shows "e_getKeys env (gp_loc g) \<noteq> [] \<and>
         gp_exactDistance g =
           Min ((\<lambda>l. case type of GEO_PLAIN \<Rightarrow> e_distance env P l
                               | GEO_SPHERE \<Rightarrow> e_spheredist_deg env P l)
                ` set (e_getKeys env (gp_loc g)))"
proof -
  let ?st0 = "GeoHopper_init env n P R type"
  let ?d = "\<lambda>l. case type of GEO_PLAIN \<Rightarrow> e_distance env P l
                               | GEO_SPHERE \<Rightarrow> e_spheredist_deg env P l"
  have m: "h_max ?st0 = n" by (simp add: GeoHopper_init_def)
  have pos: "0 < unat (h_max ?st0)" and small: "unat (h_max ?st0) < 2147483648"
    using unat_pos_sint[OF n] m by simp_all
  from hopper_run_inv[OF run hopper_inv_init pos small]
  have inv: "hopper_inv env ?st0 st" by simp
  have ex: "exact_of env ?st0 l = (?d l, ?d l \<le> R)" for l
    using within by (cases type) (simp_all add: exact_of_def GeoHopper_init_def Let_def)
  from held_point_within[OF inv g] obtain l where
    l: "l \<in> set (e_getKeys env (gp_loc g))" "?d l \<le> R" "?d l = gp_exactDistance g"
    and least: "\<forall>l'\<in>set (e_getKeys env (gp_loc g)). ?d l' \<le> R \<longrightarrow> gp_exactDistance g \<le> ?d l'"
    unfolding ex by auto
  have "Min (?d ` set (e_getKeys env (gp_loc g))) = gp_exactDistance g"
  proof (rule Min_eqI)
    show "finite (?d ` set (e_getKeys env (gp_loc g)))" by simp
    show "gp_exactDistance g \<in> ?d ` set (e_getKeys env (gp_loc g))"
      using l by force
    show "gp_exactDistance g \<le> y" if "y \<in> ?d ` set (e_getKeys env (gp_loc g))" for y
    proof -
      from that obtain l' where l': "l' \<in> set (e_getKeys env (gp_loc g))" "y = ?d l'" by auto
      show ?thesis
      proof (cases "?d l' \<le> R")
        case True
        with least l' show ?thesis by simp
      next
        case False
        with l l' show ?thesis by simp
      qed
    qed
  qed
  with l show ?thesis by auto
qed


theorem exact_distance_is_minimum_witness:
  "0 < sint (3 :: 32 word) \<and>
   (\<exists>st g. hopper_run sample_env sample_nodes
              (GeoHopper_init sample_env 3 (mkPoint 50 50) 10 GEO_PLAIN) = Inr st \<and>
      g \<in> set (h_points st) \<and> gp_loc g = 3 \<and> gp_key g = 5059 \<and>
      e_getKeys sample_env (gp_loc g) = [mkPoint 50 59, mkPoint 50 47] \<and>
      gp_exactDistance g = 3 \<and>
      gp_exactDistance g =
        Min ((\<lambda>l. case GEO_PLAIN of GEO_PLAIN \<Rightarrow> e_distance sample_env (mkPoint 50 50) l
                               | GEO_SPHERE \<Rightarrow> e_spheredist_deg sample_env (mkPoint 50 50) l)
             ` set (e_getKeys sample_env (gp_loc g))))"
proof -
  let ?g = "\<lparr>gp_key = 5059, gp_loc = 3, gp_exactDistance = 3, gp_exactWithin = True\<rparr> :: nat GeoPoint"
  have "\<exists>st. hopper_run sample_env sample_nodes
            (GeoHopper_init sample_env 3 (mkPoint 50 50) 10 GEO_PLAIN) = Inr st \<and>
      ?g \<in> set (h_points st)"
    by (simp add: sample_simps)
  then obtain st where run: "hopper_run sample_env sample_nodes
            (GeoHopper_init sample_env 3 (mkPoint 50 50) 10 GEO_PLAIN) = Inr st"
    and g: "?g \<in> set (h_points st)" by blast
  have h1: "0 < sint (3 :: 32 word)" by simp
  have h2: "\<forall>p q r. e_distanceWithin sample_env p q r \<longleftrightarrow> e_distance sample_env p q \<le> r"
    by (simp add: sample_env_def)
  have k: "e_getKeys sample_env (gp_loc ?g) = [mkPoint 50 59, mkPoint 50 47]"
    by (simp add: sample_env_def sample_locs_def)
  from exact_distance_is_minimum[OF h1 h2 run g] run g h1 k
  show ?thesis by (intro conjI exI[of _ st] exI[of _ ?g]) simp_all
qed

section \<open>Properties of the region browsers\<close>

lemma browse_add_effect:
  assumes "browse_add env cd node st = Inr st'"
  shows "(br_cur st' = br_cur st \<and> br_stack st' = br_stack st \<and>
          (\<forall>l. acc_matched st l \<noteq> None \<longrightarrow> acc_matched st' l = acc_matched st l)) \<or>
         (acc_matched st (kn_recordLoc node) = None \<and>
          acc_matched st' = (acc_matched st)(kn_recordLoc node \<mapsto> True) \<and>
          ((br_cur st = None \<and> br_cur st' = Some (GeoPoint_of node) \<and>
            br_stack st' = br_stack st) \<or>
           (br_cur st \<noteq> None \<and> br_cur st' = br_cur st \<and>
            br_stack st' = br_stack st @ [GeoPoint_of node])))"
proof (cases "(kn_key node, kn_recordLoc node) \<in> acc_seen st")
  case True
  with assms have "st' = st" by (simp add: browse_add_def add_def)
  then show ?thesis by simp
next
  case False
  from assms False obtain good d where cd: "cd node = Inr (good, d)"
    by (cases "cd node") (auto simp: browse_add_def add_def Let_def)
  show ?thesis
  proof (cases "acc_matched st (kn_recordLoc node)")
    case (Some b)
    with assms False cd show ?thesis
      by (cases b; cases good)
         (auto simp: browse_add_def add_def Let_def add_accept_def browse_addSpecific_def)
  next
    case None
    show ?thesis
    proof (cases good)
      case False
      with assms \<open>(kn_key node, kn_recordLoc node) \<notin> acc_seen st\<close> cd None show ?thesis
        by (auto simp: browse_add_def add_def Let_def)
    next
      case True
      show ?thesis
      proof (cases "e_matcher env")
        case nm: None
        with assms \<open>(kn_key node, kn_recordLoc node) \<notin> acc_seen st\<close> cd None True show ?thesis
          by (cases "br_cur st")
             (auto simp: browse_add_def add_def Let_def add_accept_def browse_addSpecific_def)
      next
        case (Some m)
        obtain g lo where m: "m (kn_key node) (kn_recordLoc node) = (g, lo)"
          by (cases "m (kn_key node) (kn_recordLoc node)")
        with assms \<open>(kn_key node, kn_recordLoc node) \<notin> acc_seen st\<close> cd None True Some
        show ?thesis
          by (cases g; cases lo; cases "br_cur st")
             (auto simp: browse_add_def add_def Let_def add_accept_def browse_addSpecific_def)
      qed
    qed
  qed
qed

lemma browse_add_inv:
  assumes a: "browse_add env cd node st = Inr st'" and inv: "browse_inv st em"
  shows "browse_inv st' (case (br_cur st, br_cur st') of (None, Some g) \<Rightarrow> em @ [g] | _ \<Rightarrow> em)"
proof -
  have fresh: "kn_recordLoc node \<notin> gp_loc ` set (em @ br_stack st)"
    if "acc_matched st (kn_recordLoc node) = None"
    using that inv by (force simp: browse_inv_def)
  have gl: "gp_loc (GeoPoint_of node) = kn_recordLoc node" by (simp add: GeoPoint_of_def)
  from browse_add_effect[OF a] show ?thesis
  proof (elim disjE conjE, goal_cases)
    case 1
    have em: "(case (br_cur st, br_cur st') of (None, Some g) \<Rightarrow> em @ [g] | _ \<Rightarrow> em) = em"
      using 1(1) by (simp split: option.splits)
    have "acc_matched st' (gp_loc g) = Some True" if "g \<in> set (em @ br_stack st)" for g
    proof -
      from that inv have "acc_matched st (gp_loc g) = Some True" by (simp add: browse_inv_def)
      moreover from 1(3) have "acc_matched st (gp_loc g) \<noteq> None \<longrightarrow>
          acc_matched st' (gp_loc g) = acc_matched st (gp_loc g)" by blast
      ultimately show ?thesis by simp
    qed
    with inv 1(1,2) show ?case unfolding em by (simp add: browse_inv_def)
  next
    case 2
    have em: "(case (br_cur st, br_cur st') of (None, Some g) \<Rightarrow> em @ [g] | _ \<Rightarrow> em)
                = em @ [GeoPoint_of node]"
      using 2(3,4) by simp
    show ?case
      unfolding em using inv fresh[OF 2(1)] gl 2 by (auto simp: browse_inv_def)
  next
    case 3
    have em: "(case (br_cur st, br_cur st') of (None, Some g) \<Rightarrow> em @ [g] | _ \<Rightarrow> em) = em"
      using 3(3,4) by (auto split: option.splits)
    show ?case
      unfolding em using inv fresh[OF 3(1)] gl 3 by (auto simp: browse_inv_def)
  qed
qed

lemma browse_advance_inv:
  assumes inv: "browse_inv st em"
  shows "browse_inv (browse_advance st)
           (case (br_stack st, br_cur (browse_advance st)) of
              (g # rest, Some g') \<Rightarrow> em @ [g'] | _ \<Rightarrow> em)"
proof (cases "br_stack st")
  case Nil
  with inv show ?thesis by (simp add: browse_advance_def browse_inv_def)
next
  case (Cons g rest)
  with inv show ?thesis by (simp add: browse_advance_def browse_inv_def)
qed

lemma browse_run_inv:
  assumes "browse_run env cd steps st em = Inr (st', em')" "browse_inv st em"
  shows "browse_inv st' em'"
  using assms
proof (induction env cd steps st em rule: browse_run.induct)
  case (1 env cd st emitted)
  then show ?case by simp
next
  case (2 env cd node steps st emitted)
  from "2.prems"(1) obtain s1 where a: "browse_add env cd node st = Inr s1"
    by (auto split: sum.splits)
  from "2.prems"(1) a "2.IH"[OF a] browse_add_inv[OF a "2.prems"(2)]
  show ?case by simp
next
  case (3 env cd steps st emitted)
  from "3.prems"(1) "3.IH"[OF refl] browse_advance_inv[OF "3.prems"(2)]
  show ?case by (simp add: Let_def)
qed

lemma browse_inv_init: "browse_inv GeoBrowse_init []"
  by (simp add: browse_inv_def GeoBrowse_init_def)


lemma browse_add_total:
  assumes "\<not> isl (cd node)"
  shows "\<not> isl (browse_add env cd node st)"
proof -
  from assms obtain good d where "cd node = Inr (good, d)" by (cases "cd node") auto
  then show ?thesis
    by (simp add: browse_add_def add_def Let_def add_accept_def browse_addSpecific_def
        split: option.split prod.split bool.split)
qed

lemma browse_run_total:
  "\<forall>node. \<not> isl (cd node) \<Longrightarrow> \<not> isl (browse_run env cd steps st em)"
proof (induction env cd steps st em rule: browse_run.induct)
  case (1 env cd st emitted)
  then show ?case by simp
next
  case (2 env cd node steps st emitted)
  from "2.prems" have "\<not> isl (browse_add env cd node st)" by (intro browse_add_total) simp
  then obtain s1 where a: "browse_add env cd node st = Inr s1"
    by (cases "browse_add env cd node st") auto
  from "2.IH"[OF a "2.prems"] a show ?case by simp
next
  case (3 env cd steps st emitted)
  from "3.IH"[OF refl "3.prems"] show ?case by (simp add: Let_def)
qed

text \<open>
  Claim C2. A region query (circle, box or polygon; they differ only in
  \<open>checkDistance\<close>) emits no document twice, whatever key nodes the index scan reaches
  and however the client's \<open>advance\<close> calls fall between them: \<open>add\<close> ignores a pair
  of key and locator it has seen, remembers the filter's verdict for each locator, and
  passes \<open>newDoc = false\<close> for a further key of a document already accepted, which
  \<open>GeoBrowse::addSpecific\<close> drops. The run ends without an exception when
  \<open>checkDistance\<close> raises none.
\<close>

theorem region_query_emits_each_document_once:
  "(\<forall>st emitted. browse_run env cd steps GeoBrowse_init [] = Inr (st, emitted) \<longrightarrow>
       distinct (map gp_loc emitted)) \<and>
   ((\<forall>node. \<not> isl (cd node)) \<longrightarrow> \<not> isl (browse_run env cd steps GeoBrowse_init []))"
proof (intro conjI allI impI)
  fix st emitted
  assume "browse_run env cd steps GeoBrowse_init [] = Inr (st, emitted)"
  from browse_run_inv[OF this browse_inv_init] show "distinct (map gp_loc emitted)"
    by (simp add: browse_inv_def)
next
  assume "\<forall>node. \<not> isl (cd node)"
  then show "\<not> isl (browse_run env cd steps GeoBrowse_init [])" by (rule browse_run_total)
qed

theorem region_query_emits_each_document_once_witness:
  "browse_run sample_env
     (box_checkDistance sample_env (mkBox (mkPoint 49 46) (mkPoint 51 60)) 1)
     [Scan \<lparr>kn_key = 5050, kn_recordLoc = 1\<rparr>, Scan \<lparr>kn_key = 5059, kn_recordLoc = 3\<rparr>,
      Advance, Scan \<lparr>kn_key = 5047, kn_recordLoc = 3\<rparr>, Scan \<lparr>kn_key = 5000, kn_recordLoc = 4\<rparr>,
      Scan \<lparr>kn_key = 5052, kn_recordLoc = 2\<rparr>, Advance, Advance]
     GeoBrowse_init []
   = Inr (\<lparr>acc_seen = {(5052, 2), (5000, 4), (5047, 3), (5059, 3), (5050, 1)},
           acc_matched = [1 \<mapsto> True, 3 \<mapsto> True, 2 \<mapsto> True],
           acc_lookedAt = 5, acc_objectsLoaded = 3, acc_found = 4,
           br_cur = None, br_stack = []\<rparr>,
          [GeoPoint_of \<lparr>kn_key = 5050, kn_recordLoc = 1\<rparr>,
           GeoPoint_of \<lparr>kn_key = 5059, kn_recordLoc = 3\<rparr>,
           GeoPoint_of \<lparr>kn_key = 5052, kn_recordLoc = 2\<rparr>]) \<and>
   distinct (map gp_loc
          [GeoPoint_of \<lparr>kn_key = 5050, kn_recordLoc = 1\<rparr>,
           GeoPoint_of \<lparr>kn_key = 5059, kn_recordLoc = 3\<rparr>,
           GeoPoint_of \<lparr>kn_key = 5052, kn_recordLoc = 2\<rparr> :: nat GeoPoint])"
proof -
  let ?run = "browse_run sample_env
     (box_checkDistance sample_env (mkBox (mkPoint 49 46) (mkPoint 51 60)) 1)
     [Scan \<lparr>kn_key = 5050, kn_recordLoc = 1\<rparr>, Scan \<lparr>kn_key = 5059, kn_recordLoc = 3\<rparr>,
      Advance, Scan \<lparr>kn_key = 5047, kn_recordLoc = 3\<rparr>, Scan \<lparr>kn_key = 5000, kn_recordLoc = 4\<rparr>,
      Scan \<lparr>kn_key = 5052, kn_recordLoc = 2\<rparr>, Advance, Advance]
     GeoBrowse_init []"
  have r: "?run = Inr (\<lparr>acc_seen = {(5052, 2), (5000, 4), (5047, 3), (5059, 3), (5050, 1)},
           acc_matched = [1 \<mapsto> True, 3 \<mapsto> True, 2 \<mapsto> True],
           acc_lookedAt = 5, acc_objectsLoaded = 3, acc_found = 4,
           br_cur = None, br_stack = []\<rparr>,
          [GeoPoint_of \<lparr>kn_key = 5050, kn_recordLoc = 1\<rparr>,
           GeoPoint_of \<lparr>kn_key = 5059, kn_recordLoc = 3\<rparr>,
           GeoPoint_of \<lparr>kn_key = 5052, kn_recordLoc = 2\<rparr>])"
    by (simp add: sample_env_def sample_locs_def GeoBrowse_init_def browse_add_def add_def
        add_accept_def browse_addSpecific_def browse_advance_def box_checkDistance_def
        inside_def between_def onBoundary_def onBoundary1_def mkBox_def mkPoint_def Let_def)
  from region_query_emits_each_document_once[of sample_env
     "box_checkDistance sample_env (mkBox (mkPoint 49 46) (mkPoint 51 60)) 1"
     "[Scan \<lparr>kn_key = 5050, kn_recordLoc = 1\<rparr>, Scan \<lparr>kn_key = 5059, kn_recordLoc = 3\<rparr>,
      Advance, Scan \<lparr>kn_key = 5047, kn_recordLoc = 3\<rparr>, Scan \<lparr>kn_key = 5000, kn_recordLoc = 4\<rparr>,
      Scan \<lparr>kn_key = 5052, kn_recordLoc = 2\<rparr>, Advance, Advance]"] r
  show ?thesis by blast
qed

section \<open>Properties of journal recovery\<close>

subsection \<open>One call of \<open>next\<close>\<close>

text \<open>
  \<open>next\<close> reads the word at \<open>entry_pos\<close> and dispatches on it, with \<open>_sectHead\<close>
  set and the reader behind that word.
\<close>

lemma next_unfold:
  "JournalIterator_next J it =
     (if length (rd_buf (it_br it)) < entry_pos J it + 4 then Inl BufReaderEof
      else let w = entry_opcode J it;
               it1 = it\<lparr>it_sectHead := Some (sect_start it),
                        it_br := (it_br it)\<lparr>rd_pos := entry_pos J it + 4\<rparr>\<rparr>
           in if w = j_OpCode_Footer J then next_footer J it1 (sect_start it)
              else if w = j_OpCode_FileCreated J \<or> w = j_OpCode_DropDb J then next_durop J it1 w
              else if w = j_OpCode_DbContext J
                   then bindE (next_dbcontext J it1) (\<lambda>(w', it2). next_basic J it2 w')
              else next_basic J it1 w)"
proof (cases it)
  case (fields br sh nm)
  show ?thesis
  proof (cases sh)
    case None
    with fields show ?thesis
      by (simp add: JournalIterator_next_def entry_pos_def entry_opcode_def sect_start_def
          bindE_def rd_skip_def rd_read32_def Let_def)
  next
    case (Some h)
    with fields show ?thesis
      by (simp add: JournalIterator_next_def entry_pos_def entry_opcode_def sect_start_def
          bindE_def rd_skip_def rd_read32_def Let_def)
  qed
qed


lemma next_footer_result:
  assumes "next_footer J it h = Inr (r, it')"
  shows "r = None \<and> it_lastDbName it' = it_lastDbName it \<and> it_sectHead it' = None"
  using assms
  by (auto simp: next_footer_def Let_def bindE_Inr_iff split: if_splits)

lemma next_durop_result:
  assumes "next_durop J it w = Inr (r, it')"
  shows "(\<exists>op. r = Some (DurOp op)) \<and> it_lastDbName it' = it_lastDbName it \<and>
         it_sectHead it' = it_sectHead it"
  using assms
  by (auto simp: next_durop_def Let_def bindE_Inr_iff split: durop_result.splits)

lemma next_basic_result:
  assumes "next_basic J it w = Inr (r, it')"
  shows "(\<exists>p. r = Some (ObjAppend (it_lastDbName it) p) \<or>
              r = Some (BasicWrite (it_lastDbName it) p) \<or>
              r = Some (BasicWrite (Some local_name) p)) \<and>
         it_lastDbName it' = it_lastDbName it \<and> it_sectHead it' = it_sectHead it"
  using assms
  by (auto simp: next_basic_def Let_def bindE_Inr_iff split: if_splits)

lemma take_takeWhile_take:
  "take (length (takeWhile P (take n xs))) xs = takeWhile P (take n xs)"
proof -
  have le: "length (takeWhile P (take n xs)) \<le> n"
    using length_takeWhile_le[of P "take n xs"] by simp
  have "takeWhile P (take n xs) = take (length (takeWhile P (take n xs))) (take n xs)"
    by (rule takeWhile_eq_take)
  also have "\<dots> = take (length (takeWhile P (take n xs))) xs"
    using le by (simp add: min_def)
  finally show ?thesis by simp
qed

lemma next_dbcontext_result:
  assumes "next_dbcontext J it = Inr (w, it')"
  shows "it_lastDbName it' =
           Some (takeWhile (\<lambda>b. b \<noteq> 0)
                  (take (min (j_MaxNsLen J) (length (rd_buf (it_br it)) - rd_pos (it_br it)))
                     (drop (rd_pos (it_br it)) (rd_buf (it_br it))))) \<and>
         it_sectHead it' = it_sectHead it"
  using assms
  by (auto simp: next_dbcontext_def Let_def bindE_Inr_iff rd_remaining_def take_takeWhile_take
      split: if_splits)

subsection \<open>The sample journal\<close>

lemmas journal_simps =
  JournalIterator_init_def JournalIterator_next_def next_footer_def next_durop_def
  next_dbcontext_def next_basic_def checkHash_def hashed_bytes_def footer_hash_def
  rd_skip_def rd_read32_def rd_rewind_def rd_align_def rd_atEof_def rd_remaining_def
  le32_def bindE_def sample_format_def sample_digest_def Let_def

lemma sample_init:
  "JournalIterator_init sample_format sample_journal =
     Inr \<lparr>it_br = \<lparr>rd_buf = sample_journal, rd_pos = 4\<rparr>, it_sectHead = None, it_lastDbName = None\<rparr>"
  by (simp add: journal_simps sample_journal_def)

lemma sample_next1:
  "JournalIterator_next sample_format
     \<lparr>it_br = \<lparr>rd_buf = sample_journal, rd_pos = 4\<rparr>, it_sectHead = None, it_lastDbName = None\<rparr>
   = Inr (Some (BasicWrite (Some [97]) 14),
       \<lparr>it_br = \<lparr>rd_buf = sample_journal, rd_pos = 28\<rparr>, it_sectHead = Some 4, it_lastDbName = Some [97]\<rparr>)"
  by (simp add: journal_simps sample_journal_def)

lemma sample_next2:
  "JournalIterator_next sample_format
     \<lparr>it_br = \<lparr>rd_buf = sample_journal, rd_pos = 28\<rparr>, it_sectHead = Some 4, it_lastDbName = Some [97]\<rparr>
   = Inr (None,
       \<lparr>it_br = \<lparr>rd_buf = sample_journal, rd_pos = 36\<rparr>, it_sectHead = None, it_lastDbName = Some [97]\<rparr>)"
  by (simp add: journal_simps sample_journal_def)

lemma sample_next3:
  "JournalIterator_next sample_format
     \<lparr>it_br = \<lparr>rd_buf = sample_journal, rd_pos = 36\<rparr>, it_sectHead = None, it_lastDbName = Some [97]\<rparr>
   = Inr (Some (BasicWrite (Some [97]) 40),
       \<lparr>it_br = \<lparr>rd_buf = sample_journal, rd_pos = 53\<rparr>, it_sectHead = Some 36, it_lastDbName = Some [97]\<rparr>)"
  by (simp add: journal_simps sample_journal_def)

lemma sample_next4:
  "JournalIterator_next sample_format
     \<lparr>it_br = \<lparr>rd_buf = sample_journal, rd_pos = 53\<rparr>, it_sectHead = Some 36, it_lastDbName = Some [97]\<rparr>
   = Inr (None,
       \<lparr>it_br = \<lparr>rd_buf = sample_journal, rd_pos = 64\<rparr>, it_sectHead = None, it_lastDbName = Some [97]\<rparr>)"
  by (simp add: journal_simps sample_journal_def)

lemma sample_read1:
  "read_entries sample_format
     \<lparr>it_br = \<lparr>rd_buf = sample_journal, rd_pos = 4\<rparr>, it_sectHead = None, it_lastDbName = None\<rparr> []
   = Inr ([BasicWrite (Some [97]) 14],
       \<lparr>it_br = \<lparr>rd_buf = sample_journal, rd_pos = 36\<rparr>, it_sectHead = None, it_lastDbName = Some [97]\<rparr>)"
  by (simp add: read_entries.simps sample_next1 sample_next2)

lemma sample_read2:
  "read_entries sample_format
     \<lparr>it_br = \<lparr>rd_buf = sample_journal, rd_pos = 36\<rparr>, it_sectHead = None, it_lastDbName = Some [97]\<rparr> []
   = Inr ([BasicWrite (Some [97]) 40],
       \<lparr>it_br = \<lparr>rd_buf = sample_journal, rd_pos = 64\<rparr>, it_sectHead = None, it_lastDbName = Some [97]\<rparr>)"
  by (simp add: read_entries.simps sample_next3 sample_next4)

lemma sample_length: "length sample_journal = 64"
  by (simp add: sample_journal_def)

lemma sample_process:
  "processBuffer sample_format sample_app True sample_journal [] =
     Inr (False, [BasicWrite (Some [97]) 14, BasicWrite (Some [97]) 40])"
  by (simp add: processBuffer_def sample_init process_sections.simps sample_read1 sample_read2
      sample_app_def rd_atEof_def sample_length)

subsection \<open>The database-name context\<close>

text \<open>
  Claim C6, as stated, fails. In the sample journal the second section holds a basic
  write and no \<open>DbContext\<close> entry; the call of \<open>next\<close> that passes the footer of the
  first section leaves \<open>_lastDbName\<close> at the name \<open>a\<close> of the first section's
  \<open>DbContext\<close> entry, and the write of the second section is returned, and applied by
  \<open>processBuffer\<close>, with that name.
\<close>

theorem dbcontext_not_reset_at_footer:
  "JournalIterator_next sample_format
     \<lparr>it_br = \<lparr>rd_buf = sample_journal, rd_pos = 28\<rparr>, it_sectHead = Some 4,
      it_lastDbName = Some [0x61]\<rparr>
   = Inr (None,
       \<lparr>it_br = \<lparr>rd_buf = sample_journal, rd_pos = 36\<rparr>, it_sectHead = None,
        it_lastDbName = Some [0x61]\<rparr>) \<and>
   entry_opcode sample_format
     \<lparr>it_br = \<lparr>rd_buf = sample_journal, rd_pos = 36\<rparr>, it_sectHead = None,
      it_lastDbName = Some [0x61]\<rparr> = 1 \<and>
   j_OpCode_DbContext sample_format \<noteq> 1 \<and>
   JournalIterator_next sample_format
     \<lparr>it_br = \<lparr>rd_buf = sample_journal, rd_pos = 36\<rparr>, it_sectHead = None,
      it_lastDbName = Some [0x61]\<rparr>
   = Inr (Some (BasicWrite (Some [0x61]) 40),
       \<lparr>it_br = \<lparr>rd_buf = sample_journal, rd_pos = 53\<rparr>, it_sectHead = Some 36,
        it_lastDbName = Some [0x61]\<rparr>) \<and>
   processBuffer sample_format sample_app True sample_journal [] =
     Inr (False, [BasicWrite (Some [0x61]) 14, BasicWrite (Some [0x61]) 40])"
proof (intro conjI)
  show "entry_opcode sample_format
     \<lparr>it_br = \<lparr>rd_buf = sample_journal, rd_pos = 36\<rparr>, it_sectHead = None,
      it_lastDbName = Some [0x61]\<rparr> = 1"
    by (simp add: entry_opcode_def entry_pos_def le32_def sample_format_def sample_journal_def)
  show "j_OpCode_DbContext sample_format \<noteq> 1"
    by (simp add: sample_format_def)
qed (simp_all add: sample_next2 sample_next3 sample_process)

text \<open>
  Claim C6, amended. The context established by a \<open>DbContext\<close> entry applies to the
  basic writes that follow it in the journal file until the next \<open>DbContext\<close> entry,
  across section boundaries. \<open>_lastDbName\<close> is null when the iterator is constructed;
  a call of \<open>next\<close> that returns changes it only when the word it reads is
  \<open>OpCode_DbContext\<close>, and then to the name that follows that word; the call that
  ends a section (it returns false, at a footer) resets \<open>_sectHead\<close> and keeps
  \<open>_lastDbName\<close>; and a basic write is returned with \<open>_lastDbName\<close>, or with
  \<open>local\<close>, as its database name.
\<close>

theorem dbcontext_kept_across_sections:
  fixes J :: "('op, 'x) jformat"
  shows
  "(\<forall>it0. JournalIterator_init J buf = Inr it0 \<longrightarrow>
        it_lastDbName it0 = None \<and> it_sectHead it0 = None) \<and>
   (\<forall>r it'. JournalIterator_next J it = Inr (r, it') \<longrightarrow>
      (r = None \<longleftrightarrow> entry_opcode J it = j_OpCode_Footer J) \<and>
      (r = None \<longrightarrow> it_sectHead it' = None \<and> it_lastDbName it' = it_lastDbName it) \<and>
      (entry_opcode J it \<noteq> j_OpCode_DbContext J \<longrightarrow> it_lastDbName it' = it_lastDbName it) \<and>
      (entry_opcode J it = j_OpCode_DbContext J \<and>
       j_OpCode_DbContext J \<notin> {j_OpCode_Footer J, j_OpCode_FileCreated J, j_OpCode_DropDb J} \<longrightarrow>
         it_lastDbName it' =
           Some (takeWhile (\<lambda>b. b \<noteq> 0)
                  (take (min (j_MaxNsLen J) (length (rd_buf (it_br it)) - (entry_pos J it + 4)))
                     (drop (entry_pos J it + 4) (rd_buf (it_br it)))))) \<and>
      (\<forall>n p. r = Some (BasicWrite n p) \<longrightarrow> n = it_lastDbName it' \<or> n = Some local_name))"
proof (intro conjI allI impI)
  fix it0
  assume "JournalIterator_init J buf = Inr it0"
  then show "it_lastDbName it0 = None" "it_sectHead it0 = None"
    by (auto simp: JournalIterator_init_def bindE_Inr_iff Let_def split: if_splits)
next
  fix r it'
  assume n: "JournalIterator_next J it = Inr (r, it')"
  define it1 where "it1 = it\<lparr>it_sectHead := Some (sect_start it),
                        it_br := (it_br it)\<lparr>rd_pos := entry_pos J it + 4\<rparr>\<rparr>"
  define w where "w = entry_opcode J it"
  have nm: "it_lastDbName it1 = it_lastDbName it" and pos: "rd_pos (it_br it1) = entry_pos J it + 4"
    and buf: "rd_buf (it_br it1) = rd_buf (it_br it)"
    by (simp_all add: it1_def)
  from n have disp:
    "(if w = j_OpCode_Footer J then next_footer J it1 (sect_start it)
      else if w = j_OpCode_FileCreated J \<or> w = j_OpCode_DropDb J then next_durop J it1 w
      else if w = j_OpCode_DbContext J
           then bindE (next_dbcontext J it1) (\<lambda>(w', it2). next_basic J it2 w')
      else next_basic J it1 w) = Inr (r, it')"
  proof (cases "length (rd_buf (it_br it)) < entry_pos J it + 4")
    case True
    with n show ?thesis by (simp add: next_unfold)
  next
    case False
    with n[unfolded next_unfold Let_def] show ?thesis
      unfolding it1_def w_def by (simp only: if_False)
  qed
  consider (footer) "w = j_OpCode_Footer J" "next_footer J it1 (sect_start it) = Inr (r, it')"
    | (durop) "w \<noteq> j_OpCode_Footer J" "w = j_OpCode_FileCreated J \<or> w = j_OpCode_DropDb J"
        "next_durop J it1 w = Inr (r, it')"
    | (ctx) "w \<noteq> j_OpCode_Footer J" "w \<noteq> j_OpCode_FileCreated J" "w \<noteq> j_OpCode_DropDb J"
        "w = j_OpCode_DbContext J"
        "bindE (next_dbcontext J it1) (\<lambda>(w', it2). next_basic J it2 w') = Inr (r, it')"
    | (basic) "w \<noteq> j_OpCode_Footer J" "w \<noteq> j_OpCode_DbContext J"
        "next_basic J it1 w = Inr (r, it')"
    using disp by (auto split: if_splits)
  then have all:
    "(r = None \<longleftrightarrow> w = j_OpCode_Footer J) \<and>
     (r = None \<longrightarrow> it_sectHead it' = None \<and> it_lastDbName it' = it_lastDbName it) \<and>
     (w \<noteq> j_OpCode_DbContext J \<longrightarrow> it_lastDbName it' = it_lastDbName it) \<and>
     (w = j_OpCode_DbContext J \<and>
       j_OpCode_DbContext J \<notin> {j_OpCode_Footer J, j_OpCode_FileCreated J, j_OpCode_DropDb J} \<longrightarrow>
         it_lastDbName it' =
           Some (takeWhile (\<lambda>b. b \<noteq> 0)
                  (take (min (j_MaxNsLen J) (length (rd_buf (it_br it)) - (entry_pos J it + 4)))
                     (drop (entry_pos J it + 4) (rd_buf (it_br it)))))) \<and>
     (\<forall>n p. r = Some (BasicWrite n p) \<longrightarrow> n = it_lastDbName it' \<or> n = Some local_name)"
  proof cases
    case footer
    from next_footer_result[OF footer(2)] footer(1) nm show ?thesis by auto
  next
    case durop
    from next_durop_result[OF durop(3)] durop(1,2) nm show ?thesis by auto
  next
    case ctx
    from ctx(5) obtain w' it2 where c: "next_dbcontext J it1 = Inr (w', it2)"
      and b: "next_basic J it2 w' = Inr (r, it')"
      by (auto simp: bindE_Inr_iff)
    from next_dbcontext_result[OF c] next_basic_result[OF b] ctx(1-4) nm pos buf
    show ?thesis by auto
  next
    case basic
    from next_basic_result[OF basic(3)] basic(1,2) nm show ?thesis by auto
  qed
  from all show "r = None \<longleftrightarrow> entry_opcode J it = j_OpCode_Footer J" by (simp add: w_def)
  from all show "r = None \<Longrightarrow> it_sectHead it' = None" by simp
  from all show "r = None \<Longrightarrow> it_lastDbName it' = it_lastDbName it" by simp
  from all show "entry_opcode J it \<noteq> j_OpCode_DbContext J \<Longrightarrow> it_lastDbName it' = it_lastDbName it"
    by (simp add: w_def)
  from all show "entry_opcode J it = j_OpCode_DbContext J \<and>
       j_OpCode_DbContext J \<notin> {j_OpCode_Footer J, j_OpCode_FileCreated J, j_OpCode_DropDb J} \<Longrightarrow>
         it_lastDbName it' =
           Some (takeWhile (\<lambda>b. b \<noteq> 0)
                  (take (min (j_MaxNsLen J) (length (rd_buf (it_br it)) - (entry_pos J it + 4)))
                     (drop (entry_pos J it + 4) (rd_buf (it_br it)))))"
    unfolding w_def by blast
  from all show "\<And>n p. r = Some (BasicWrite n p) \<Longrightarrow> n = it_lastDbName it' \<or> n = Some local_name"
    by blast
qed

theorem dbcontext_kept_across_sections_witness:
  "JournalIterator_init sample_format sample_journal =
     Inr \<lparr>it_br = \<lparr>rd_buf = sample_journal, rd_pos = 4\<rparr>, it_sectHead = None,
          it_lastDbName = None\<rparr> \<and>
   JournalIterator_next sample_format
     \<lparr>it_br = \<lparr>rd_buf = sample_journal, rd_pos = 4\<rparr>, it_sectHead = None, it_lastDbName = None\<rparr>
   = Inr (Some (BasicWrite (Some [0x61]) 14),
       \<lparr>it_br = \<lparr>rd_buf = sample_journal, rd_pos = 28\<rparr>, it_sectHead = Some 4,
        it_lastDbName = Some [0x61]\<rparr>) \<and>
   entry_opcode sample_format
     \<lparr>it_br = \<lparr>rd_buf = sample_journal, rd_pos = 4\<rparr>, it_sectHead = None, it_lastDbName = None\<rparr>
     = j_OpCode_DbContext sample_format \<and>
   j_OpCode_DbContext sample_format \<notin>
     {j_OpCode_Footer sample_format, j_OpCode_FileCreated sample_format,
      j_OpCode_DropDb sample_format} \<and>
   Some [0x61] =
     Some (takeWhile (\<lambda>b. b \<noteq> 0)
            (take (min (j_MaxNsLen sample_format) (length sample_journal - (8 + 4)))
               (drop (8 + 4) sample_journal))) \<and>
   JournalIterator_next sample_format
     \<lparr>it_br = \<lparr>rd_buf = sample_journal, rd_pos = 28\<rparr>, it_sectHead = Some 4,
      it_lastDbName = Some [0x61]\<rparr>
   = Inr (None,
       \<lparr>it_br = \<lparr>rd_buf = sample_journal, rd_pos = 36\<rparr>, it_sectHead = None,
        it_lastDbName = Some [0x61]\<rparr>) \<and>
   entry_opcode sample_format
     \<lparr>it_br = \<lparr>rd_buf = sample_journal, rd_pos = 28\<rparr>, it_sectHead = Some 4,
      it_lastDbName = Some [0x61]\<rparr>
     = j_OpCode_Footer sample_format"
proof -
  let ?it4 = "\<lparr>it_br = \<lparr>rd_buf = sample_journal, rd_pos = 4\<rparr>, it_sectHead = None,
               it_lastDbName = None\<rparr>"
  let ?it28 = "\<lparr>it_br = \<lparr>rd_buf = sample_journal, rd_pos = 28\<rparr>, it_sectHead = Some 4,
                it_lastDbName = Some [0x61]\<rparr>"
  have op4: "entry_opcode sample_format ?it4 = j_OpCode_DbContext sample_format"
    by (simp add: entry_opcode_def entry_pos_def le32_def sample_format_def sample_journal_def)
  have pos4: "entry_pos sample_format ?it4 = 8"
    by (simp add: entry_pos_def sample_format_def)
  have d: "j_OpCode_DbContext sample_format \<notin>
     {j_OpCode_Footer sample_format, j_OpCode_FileCreated sample_format,
      j_OpCode_DropDb sample_format}"
    by (simp add: sample_format_def)
  from dbcontext_kept_across_sections[of sample_format sample_journal ?it4]
    dbcontext_kept_across_sections[of sample_format sample_journal ?it28]
    sample_init sample_next1 sample_next2 op4 pos4 d
  show ?thesis by simp
qed

subsection \<open>The section checksum\<close>

text \<open>
  Claim C5, as stated, fails. The claim has the digest cover the section from the start
  of its header up to the footer's hash field, which in the first section of the sample
  journal is the 28 bytes from offset 4 to offset 32 and takes in the footer's opcode
  word. The footer of that section records the digest of the 24 bytes from offset 4 to
  the start of the footer at offset 28; the digest of the 28 bytes differs from it, and
  \<open>next\<close> accepts the section.
\<close>

theorem checksum_excludes_footer_opcode:
  "JournalIterator_next sample_format
     \<lparr>it_br = \<lparr>rd_buf = sample_journal, rd_pos = 28\<rparr>, it_sectHead = Some 4,
      it_lastDbName = Some [0x61]\<rparr>
   = Inr (None,
       \<lparr>it_br = \<lparr>rd_buf = sample_journal, rd_pos = 36\<rparr>, it_sectHead = None,
        it_lastDbName = Some [0x61]\<rparr>) \<and>
   footer_hash sample_format sample_journal 28 = [24, 212] \<and>
   j_md5 sample_format (take (28 - 4) (drop 4 sample_journal)) = [24, 212] \<and>
   j_md5 sample_format (take (28 + 4 + j_hash_ofs sample_format - 4) (drop 4 sample_journal))
     = [28, 208] \<and>
   j_md5 sample_format (take (28 + 4 + j_hash_ofs sample_format - 4) (drop 4 sample_journal))
     \<noteq> footer_hash sample_format sample_journal 28"
proof (intro conjI)
  show "j_md5 sample_format (take (28 + 4 + j_hash_ofs sample_format - 4) (drop 4 sample_journal))
     \<noteq> footer_hash sample_format sample_journal 28"
    by (simp add: footer_hash_def sample_format_def sample_digest_def sample_journal_def)
  show "footer_hash sample_format sample_journal 28 = [24, 212]"
    by (simp add: footer_hash_def sample_format_def sample_journal_def)
  show "j_md5 sample_format (take (28 - 4) (drop 4 sample_journal)) = [24, 212]"
    by (simp add: sample_format_def sample_digest_def sample_journal_def)
  show "j_md5 sample_format (take (28 + 4 + j_hash_ofs sample_format - 4) (drop 4 sample_journal))
     = [28, 208]"
    by (simp add: sample_format_def sample_digest_def sample_journal_def)
qed (simp add: sample_next2)

text \<open>
  Claim C5, amended. On reaching a section footer (whose hash lies inside the file) the
  iterator has the digest recomputed over the section's bytes from the start of the
  section header up to, and not including, the footer, so that the footer's opcode word
  is not part of them; \<open>next\<close> fails with the checksum error 13594 exactly when that
  digest differs from the hash recorded in the footer. The loop that collects the
  section's entries then fails with the same error and returns none of them; otherwise,
  when the rest of the footer lies inside the file, \<open>next\<close> returns false and the
  loop returns the entries collected.
\<close>

theorem checksum_from_header_to_footer:
  fixes J :: "('op, 'x) jformat"
  assumes "entry_pos J it + 4 + j_hash_ofs J + j_hash_len J \<le> length (rd_buf (it_br it))"
      and "entry_opcode J it = j_OpCode_Footer J"
  shows "(JournalIterator_next J it = Inl (MAssert 13594) \<longleftrightarrow>
            j_md5 J (take (entry_pos J it - sect_start it) (drop (sect_start it) (rd_buf (it_br it))))
              \<noteq> take (j_hash_len J)
                    (drop (entry_pos J it + 4 + j_hash_ofs J) (rd_buf (it_br it)))) \<and>
         (JournalIterator_next J it = Inl (MAssert 13594) \<longrightarrow>
            read_entries J it es = Inl (MAssert 13594)) \<and>
         (JournalIterator_next J it \<noteq> Inl (MAssert 13594) \<and>
          entry_pos J it + 4 + j_JSectFooter_tail J \<le> length (rd_buf (it_br it)) \<longrightarrow>
            (\<exists>it'. JournalIterator_next J it = Inr (None, it') \<and>
                   read_entries J it es = Inr (es, it')))"
proof -
  define it1 where "it1 = it\<lparr>it_sectHead := Some (sect_start it),
                        it_br := (it_br it)\<lparr>rd_pos := entry_pos J it + 4\<rparr>\<rparr>"
  from assms(1) have len: "\<not> length (rd_buf (it_br it)) < entry_pos J it + 4" by simp
  have n: "JournalIterator_next J it = next_footer J it1 (sect_start it)"
    using len assms(2) by (simp add: next_unfold Let_def it1_def)
  have f: "next_footer J it1 (sect_start it) =
     (if j_md5 J (take (entry_pos J it - sect_start it) (drop (sect_start it) (rd_buf (it_br it))))
              \<noteq> take (j_hash_len J)
                    (drop (entry_pos J it + 4 + j_hash_ofs J) (rd_buf (it_br it)))
      then Inl (MAssert 13594)
      else if length (rd_buf (it_br it)) < entry_pos J it + 4 + j_JSectFooter_tail J
           then Inl BufReaderEof
      else Inr (None, it1\<lparr>it_br := rd_align (j_Alignment J)
                  ((it_br it)\<lparr>rd_pos := entry_pos J it + 4 + j_JSectFooter_tail J\<rparr>),
                it_sectHead := None\<rparr>))"
    using assms(1)
    by (simp add: next_footer_def checkHash_def hashed_bytes_def footer_hash_def bindE_def
        rd_skip_def Let_def it1_def)
  show ?thesis
    unfolding n f by (subst (1 2) read_entries.simps) (simp add: n f)
qed


theorem checksum_from_header_to_footer_witness:
  "entry_pos sample_format
     \<lparr>it_br = \<lparr>rd_buf = sample_corrupt, rd_pos = 28\<rparr>, it_sectHead = Some 4,
      it_lastDbName = Some [0x61]\<rparr> + 4 + j_hash_ofs sample_format + j_hash_len sample_format
     \<le> length sample_corrupt \<and>
   entry_opcode sample_format
     \<lparr>it_br = \<lparr>rd_buf = sample_corrupt, rd_pos = 28\<rparr>, it_sectHead = Some 4,
      it_lastDbName = Some [0x61]\<rparr> = j_OpCode_Footer sample_format \<and>
   j_md5 sample_format (take (28 - 4) (drop 4 sample_corrupt)) = [24, 212] \<and>
   take (j_hash_len sample_format) (drop (28 + 4 + j_hash_ofs sample_format) sample_corrupt)
     = [25, 212] \<and>
   JournalIterator_next sample_format
     \<lparr>it_br = \<lparr>rd_buf = sample_corrupt, rd_pos = 28\<rparr>, it_sectHead = Some 4,
      it_lastDbName = Some [0x61]\<rparr> = Inl (MAssert 13594) \<and>
   read_entries sample_format
     \<lparr>it_br = \<lparr>rd_buf = sample_corrupt, rd_pos = 28\<rparr>, it_sectHead = Some 4,
      it_lastDbName = Some [0x61]\<rparr> [] = Inl (MAssert 13594)"
proof -
  let ?it = "\<lparr>it_br = \<lparr>rd_buf = sample_corrupt, rd_pos = 28\<rparr>, it_sectHead = Some 4,
              it_lastDbName = Some [0x61]\<rparr>"
  have c: "sample_corrupt =
     [106, 10, 1, 0,
      1, 0, 0, 0,
      254, 255, 255, 255, 97, 0,
      2, 0, 0, 0, 16, 0, 0, 0, 0, 0, 0, 0, 170, 187,
      255, 255, 255, 255, 25, 212, 10, 10,
      2, 0, 0, 0,
      1, 0, 0, 0, 32, 0, 0, 0, 0, 0, 0, 0, 204,
      255, 255, 255, 255, 17, 239, 10, 10,
      0, 0, 0]"
    by (simp add: sample_corrupt_def sample_journal_def)
  have len: "length sample_corrupt = 64" by (simp add: c)
  have pos: "entry_pos sample_format ?it = 28" and start: "sect_start ?it = 4"
    by (simp_all add: entry_pos_def sect_start_def)
  have h1: "entry_pos sample_format ?it + 4 + j_hash_ofs sample_format + j_hash_len sample_format
     \<le> length (rd_buf (it_br ?it))"
    unfolding pos by (simp add: len sample_format_def)
  have h2: "entry_opcode sample_format ?it = j_OpCode_Footer sample_format"
    unfolding entry_opcode_def pos by (simp add: c le32_def sample_format_def)
  have d: "j_md5 sample_format (take (28 - 4) (drop 4 sample_corrupt)) = [24, 212]"
    by (simp add: c sample_format_def sample_digest_def)
  have r: "take (j_hash_len sample_format) (drop (28 + 4 + j_hash_ofs sample_format) sample_corrupt)
     = [25, 212]"
    by (simp add: c sample_format_def)
  from checksum_from_header_to_footer[OF h1 h2, of "[]"] h1 h2 d r pos start len
  show ?thesis by simp
qed

subsection \<open>Reading and applying the sections of a file\<close>

text \<open>
  The iterator raises no user assertion after its construction, \<open>applyEntries\<close> raises
  only what \<open>applyEntry\<close> raises, and \<open>processBuffer\<close> applies the complete
  sections of the file in order, up to the first exception.
\<close>

lemma next_footer_no_uassert: "next_footer J it h \<noteq> Inl (UAssert n)"
  by (simp add: next_footer_def Let_def checkHash_def bindE_def rd_skip_def)

lemma next_durop_no_uassert: "next_durop J it w \<noteq> Inl (UAssert n)"
  by (simp add: next_durop_def Let_def bindE_def rd_skip_def split: durop_result.split)

lemma next_basic_no_uassert: "next_basic J it w \<noteq> Inl (UAssert n)"
  by (simp add: next_basic_def Let_def bindE_def rd_skip_def rd_rewind_def)

lemma next_dbcontext_no_uassert: "next_dbcontext J it \<noteq> Inl (UAssert n)"
  by (simp add: next_dbcontext_def Let_def bindE_def rd_skip_def rd_read32_def)

lemma next_no_uassert: "JournalIterator_next J it \<noteq> Inl (UAssert n)"
proof -
  have "bindE (next_dbcontext J it1) (\<lambda>(w', it2). next_basic J it2 w') \<noteq> Inl (UAssert n)"
    for it1
    using next_dbcontext_no_uassert[of J it1 n]
    by (cases "next_dbcontext J it1") (auto simp: bindE_def next_basic_no_uassert)
  then show ?thesis
    by (simp add: next_unfold Let_def next_footer_no_uassert next_durop_no_uassert
        next_basic_no_uassert)
qed

lemma read_entries_no_uassert: "read_entries J it es \<noteq> Inl (UAssert n)"
proof (induction J it es rule: read_entries.induct)
  case (1 J it entries)
  show ?case
  proof (cases "JournalIterator_next J it")
    case (Inl e)
    with next_no_uassert[of J it n] show ?thesis
      by (subst read_entries.simps) simp
  next
    case (Inr p)
    obtain r it' where p: "p = (r, it')" by (cases p)
    show ?thesis
    proof (cases r)
      case None
      with Inr p show ?thesis by (subst read_entries.simps) simp
    next
      case (Some e)
      with Inr p "1.IH"[OF Inr p[symmetric] Some] show ?thesis by (subst read_entries.simps) simp
    qed
  qed
qed

lemma applyEntries_error:
  "applyEntries app ap es s = (Some e, s') \<Longrightarrow> \<exists>x. e = External x"
  by (induction app ap es s rule: applyEntries.induct) (auto split: if_splits sum.splits)

lemma apply_sections_error:
  "apply_sections app ap secs s = (Some e, s') \<Longrightarrow> \<exists>x. e = External x"
  by (induction app ap secs s rule: apply_sections.induct)
     (auto split: prod.splits option.splits dest: applyEntries_error)

lemma process_sections_parse:
  "parse_sections J it = (secs, ending) \<Longrightarrow>
   process_sections J app ap it s =
     (case apply_sections app ap secs s of
        (Some e, s') \<Rightarrow> (Some e, s')
      | (None, s') \<Rightarrow> (ending, s'))"
proof (induction J app ap it s arbitrary: secs ending rule: process_sections.induct)
  case (1 J app ap it s)
  note prs = "1.prems"
  show ?case
  proof (cases "read_entries J it []")
    case (Inl e)
    with prs[unfolded parse_sections.simps[of J it]] have "secs = []" "ending = Some e"
      by simp_all
    moreover from Inl have "process_sections J app ap it s = (Some e, s)"
      by (subst process_sections.simps) simp
    ultimately show ?thesis by simp
  next
    case (Inr p)
    obtain entries it' where p: "p = (entries, it')" by (cases p)
    obtain r s' where a: "applyEntries app ap entries s = (r, s')"
      by (cases "applyEntries app ap entries s")
    obtain secs' ending' where ps': "parse_sections J it' = (secs', ending')"
      by (cases "parse_sections J it'")
    have ps: "(secs, ending) =
        (if rd_atEof (it_br it') then ([entries], None) else (entries # secs', ending'))"
      using prs[unfolded parse_sections.simps[of J it]] Inr p ps' by (auto split: if_splits)
    show ?thesis
    proof (cases r)
      case (Some e)
      with Inr p a have "process_sections J app ap it s = (Some e, s')"
        by (subst process_sections.simps) simp
      with a Some ps show ?thesis by (auto split: if_splits)
    next
      case None
      show ?thesis
      proof (cases "rd_atEof (it_br it')")
        case True
        with Inr p a None have "process_sections J app ap it s = (None, s')"
          by (subst process_sections.simps) simp
        with a None True ps show ?thesis by auto
      next
        case False
        note ih = "1.IH"[OF Inr p[symmetric] a[symmetric] None False ps']
        from Inr p a None False
        have "process_sections J app ap it s = process_sections J app ap it' s'"
          by (subst process_sections.simps) simp
        with ih a None False ps show ?thesis by auto
      qed
    qed
  qed
qed


lemma parse_sections_no_uassert:
  "parse_sections J it = (secs, Some e) \<Longrightarrow> e \<noteq> UAssert n"
proof (induction J it arbitrary: secs rule: parse_sections.induct)
  case (1 J it)
  note prs = "1.prems"[unfolded parse_sections.simps[of J it]]
  show ?case
  proof (cases "read_entries J it []")
    case (Inl e')
    with prs read_entries_no_uassert[of J it "[]" n] show ?thesis by auto
  next
    case (Inr p)
    obtain entries it' where p: "p = (entries, it')" by (cases p)
    obtain secs' ending' where ps': "parse_sections J it' = (secs', ending')"
      by (cases "parse_sections J it'")
    show ?thesis
    proof (cases "rd_atEof (it_br it')")
      case True
      with prs Inr p show ?thesis by simp
    next
      case False
      with prs Inr p ps' have "ending' = Some e" by simp
      with "1.IH"[OF Inr p[symmetric] False, of secs'] ps' show ?thesis by simp
    qed
  qed
qed

lemma process_sections_no_uassert:
  "process_sections J app ap it s = (Some e, s') \<Longrightarrow> e \<noteq> UAssert n"
proof -
  assume a: "process_sections J app ap it s = (Some e, s')"
  obtain secs ending where ps: "parse_sections J it = (secs, ending)"
    by (cases "parse_sections J it")
  obtain r s1 where ap: "apply_sections app ap secs s = (r, s1)"
    by (cases "apply_sections app ap secs s")
  show ?thesis
  proof (cases r)
    case None
    with a ap have "ending = Some e" by (simp add: process_sections_parse[OF ps])
    with ps show ?thesis by (auto dest: parse_sections_no_uassert)
  next
    case (Some e')
    with a ap have "e' = e" by (simp add: process_sections_parse[OF ps])
    with Some ap apply_sections_error[of app ap secs s e s1] show ?thesis by auto
  qed
qed

lemma processFile_not_abrupt_error:
  "processFile J app ap f s \<noteq> Inl (UAssert 13535)"
proof (cases f)
  case None
  then show ?thesis by (simp add: processFile_def)
next
  case (Some buf)
  show ?thesis
  proof (cases "JournalIterator_init J buf")
    case (Inl e)
    then have "e \<noteq> UAssert 13535"
      by (auto simp: JournalIterator_init_def bindE_def rd_skip_def Let_def split: if_splits)
    with Inl Some show ?thesis by (simp add: processFile_def processBuffer_def)
  next
    case (Inr it)
    obtain r s' where ps: "process_sections J app ap it s = (r, s')"
      by (cases "process_sections J app ap it s")
    show ?thesis
    proof (cases r)
      case None
      with Inr Some ps show ?thesis by (simp add: processFile_def processBuffer_def)
    next
      case (Some e)
      with ps process_sections_no_uassert[of J app ap it s e s' 13535]
      have "e \<noteq> UAssert 13535" by simp
      with Inr \<open>f = Some buf\<close> ps Some show ?thesis
        by (cases e) (simp_all add: processFile_def processBuffer_def)
    qed
  qed
qed

lemma go_files_abrupt_iff:
  "go_files J app ap files s = Inl (UAssert 13535) \<longleftrightarrow>
     (\<exists>i s1 s2. i + 1 < length files \<and>
        processed_cleanly J app ap (take i files) s = Some s1 \<and>
        processFile J app ap (files ! i) s1 = Inr (True, s2))"
proof (induction files arbitrary: s)
  case Nil
  then show ?case by simp
next
  case (Cons f fs)
  let ?R = "\<lambda>files s. \<exists>i s1 s2. i + 1 < length files \<and>
        processed_cleanly J app ap (take i files) s = Some s1 \<and>
        processFile J app ap (files ! i) s1 = Inr (True, s2)"
  show ?case
  proof (cases "processFile J app ap f s")
    case (Inl e)
    have "\<not> ?R (f # fs) s"
    proof
      assume "?R (f # fs) s"
      then obtain i s1 s2 where i: "i + 1 < length (f # fs)"
        and c: "processed_cleanly J app ap (take i (f # fs)) s = Some s1"
        and p: "processFile J app ap ((f # fs) ! i) s1 = Inr (True, s2)" by blast
      show False
      proof (cases i)
        case 0
        with c p Inl show False by simp
      next
        case (Suc j)
        with c Inl show False by simp
      qed
    qed
    moreover from Inl processFile_not_abrupt_error[of J app ap f s]
    have "go_files J app ap (f # fs) s \<noteq> Inl (UAssert 13535)" by simp
    ultimately show ?thesis by blast
  next
    case (Inr p)
    obtain abrupt s' where p: "p = (abrupt, s')" by (cases p)
    show ?thesis
    proof (cases abrupt)
      case True
      show ?thesis
      proof (cases "fs = []")
        case True
        with Inr p show ?thesis by simp
      next
        case False
        then have "0 + 1 < length (f # fs)" by (cases fs) simp_all
        moreover have "processed_cleanly J app ap (take 0 (f # fs)) s = Some s" by simp
        moreover have "processFile J app ap ((f # fs) ! 0) s = Inr (True, s')"
          using Inr p True by simp
        ultimately have "?R (f # fs) s" by blast
        moreover from Inr p True False
        have "go_files J app ap (f # fs) s = Inl (UAssert 13535)" by simp
        ultimately show ?thesis by blast
      qed
    next
      case False
      have g: "go_files J app ap (f # fs) s = go_files J app ap fs s'"
        using Inr p False by simp
      have "?R (f # fs) s \<longleftrightarrow> ?R fs s'"
      proof
        assume "?R (f # fs) s"
        then obtain i s1 s2 where i: "i + 1 < length (f # fs)"
          and c: "processed_cleanly J app ap (take i (f # fs)) s = Some s1"
          and q: "processFile J app ap ((f # fs) ! i) s1 = Inr (True, s2)" by blast
        show "?R fs s'"
        proof (cases i)
          case 0
          with c q Inr p False show ?thesis by simp
        next
          case (Suc j)
          with i c q Inr p False
          have "j + 1 < length fs" "processed_cleanly J app ap (take j fs) s' = Some s1"
            "processFile J app ap (fs ! j) s1 = Inr (True, s2)" by simp_all
          then show ?thesis by blast
        qed
      next
        assume "?R fs s'"
        then obtain j s1 s2 where "j + 1 < length fs"
          "processed_cleanly J app ap (take j fs) s' = Some s1"
          "processFile J app ap (fs ! j) s1 = Inr (True, s2)" by blast
        with Inr p False
        have "Suc j + 1 < length (f # fs)"
          "processed_cleanly J app ap (take (Suc j) (f # fs)) s = Some s1"
          "processFile J app ap ((f # fs) ! Suc j) s1 = Inr (True, s2)" by simp_all
        then show "?R (f # fs) s" by blast
      qed
      with g Cons.IH[of s'] show ?thesis by simp
    qed
  qed
qed

lemma go_files_last:
  "processed_cleanly J app ap fs s = Some s1 \<Longrightarrow>
   processFile J app ap f s1 = Inr (abrupt, s2) \<Longrightarrow>
   go_files J app ap (fs @ [f]) s = Inr s2"
proof (induction fs arbitrary: s)
  case Nil
  then show ?case by simp
next
  case (Cons g gs)
  from Cons.prems(1) obtain s' where g: "processFile J app ap g s = Inr (False, s')"
    and c: "processed_cleanly J app ap gs s' = Some s1"
    by (auto split: sum.splits prod.splits bool.splits)
  from Cons.IH[OF c Cons.prems(2)] g show ?case by simp
qed

lemma processFile_abrupt_iff:
  "processFile J app ap (Some buf) s = Inr (True, s2) \<longleftrightarrow>
     (\<exists>it secs. JournalIterator_init J buf = Inr it \<and>
        parse_sections J it = (secs, Some BufReaderEof) \<and>
        apply_sections app ap secs s = (None, s2))"
proof (cases "JournalIterator_init J buf")
  case (Inl e)
  then show ?thesis by (simp add: processFile_def processBuffer_def)
next
  case (Inr it)
  obtain secs ending where ps: "parse_sections J it = (secs, ending)"
    by (cases "parse_sections J it")
  obtain r s1 where ap: "apply_sections app ap secs s = (r, s1)"
    by (cases "apply_sections app ap secs s")
  show ?thesis
  proof (cases r)
    case None
    with Inr ps ap show ?thesis
      by (cases ending; cases "the ending")
         (auto simp: processFile_def processBuffer_def process_sections_parse[OF ps])
  next
    case (Some e)
    with ap apply_sections_error[of app ap secs s e s1] obtain x where "e = External x" by auto
    with Some Inr ps ap show ?thesis
      by (simp add: processFile_def processBuffer_def process_sections_parse[OF ps])
  qed
qed

subsection \<open>The truncated sample journal\<close>

lemma truncated_bytes:
  "sample_truncated =
     [106, 10, 1, 0,
      1, 0, 0, 0,
      254, 255, 255, 255, 97, 0,
      2, 0, 0, 0, 16, 0, 0, 0, 0, 0, 0, 0, 170, 187,
      255, 255, 255, 255, 24, 212, 10, 10,
      2, 0, 0, 0,
      1, 0, 0, 0, 32, 0, 0, 0, 0, 0, 0, 0, 204]"
  by (simp add: sample_truncated_def sample_journal_def)

lemma truncated_init:
  "JournalIterator_init sample_format sample_truncated =
     Inr \<lparr>it_br = \<lparr>rd_buf = sample_truncated, rd_pos = 4\<rparr>, it_sectHead = None, it_lastDbName = None\<rparr>"
  by (simp add: journal_simps truncated_bytes)

lemma truncated_next1:
  "JournalIterator_next sample_format
     \<lparr>it_br = \<lparr>rd_buf = sample_truncated, rd_pos = 4\<rparr>, it_sectHead = None, it_lastDbName = None\<rparr>
   = Inr (Some (BasicWrite (Some [97]) 14),
       \<lparr>it_br = \<lparr>rd_buf = sample_truncated, rd_pos = 28\<rparr>, it_sectHead = Some 4, it_lastDbName = Some [97]\<rparr>)"
  by (simp add: journal_simps truncated_bytes)

lemma truncated_next2:
  "JournalIterator_next sample_format
     \<lparr>it_br = \<lparr>rd_buf = sample_truncated, rd_pos = 28\<rparr>, it_sectHead = Some 4, it_lastDbName = Some [97]\<rparr>
   = Inr (None,
       \<lparr>it_br = \<lparr>rd_buf = sample_truncated, rd_pos = 36\<rparr>, it_sectHead = None, it_lastDbName = Some [97]\<rparr>)"
  by (simp add: journal_simps truncated_bytes)

lemma truncated_next3:
  "JournalIterator_next sample_format
     \<lparr>it_br = \<lparr>rd_buf = sample_truncated, rd_pos = 36\<rparr>, it_sectHead = None, it_lastDbName = Some [97]\<rparr>
   = Inr (Some (BasicWrite (Some [97]) 40),
       \<lparr>it_br = \<lparr>rd_buf = sample_truncated, rd_pos = 53\<rparr>, it_sectHead = Some 36, it_lastDbName = Some [97]\<rparr>)"
  by (simp add: journal_simps truncated_bytes)

lemma truncated_next4:
  "JournalIterator_next sample_format
     \<lparr>it_br = \<lparr>rd_buf = sample_truncated, rd_pos = 53\<rparr>, it_sectHead = Some 36, it_lastDbName = Some [97]\<rparr>
   = (Inl BufReaderEof :: nat jerror + nat ParsedJournalEntry option \<times> JournalIterator)"
  by (simp add: journal_simps truncated_bytes)

lemma truncated_read1:
  "read_entries sample_format
     \<lparr>it_br = \<lparr>rd_buf = sample_truncated, rd_pos = 4\<rparr>, it_sectHead = None, it_lastDbName = None\<rparr> []
   = Inr ([BasicWrite (Some [97]) 14],
       \<lparr>it_br = \<lparr>rd_buf = sample_truncated, rd_pos = 36\<rparr>, it_sectHead = None, it_lastDbName = Some [97]\<rparr>)"
  by (simp add: read_entries.simps truncated_next1 truncated_next2)

lemma truncated_read2:
  "read_entries sample_format
     \<lparr>it_br = \<lparr>rd_buf = sample_truncated, rd_pos = 36\<rparr>, it_sectHead = None, it_lastDbName = Some [97]\<rparr> []
   = Inl BufReaderEof"
  by (simp add: read_entries.simps truncated_next3 truncated_next4)

lemma truncated_length: "length sample_truncated = 53"
  by (simp add: truncated_bytes)

lemma truncated_parse:
  "parse_sections sample_format
     \<lparr>it_br = \<lparr>rd_buf = sample_truncated, rd_pos = 4\<rparr>, it_sectHead = None, it_lastDbName = None\<rparr>
   = ([[BasicWrite (Some [97]) 14]], Some BufReaderEof)"
  by (simp add: parse_sections.simps truncated_read1 truncated_read2 rd_atEof_def truncated_length)

lemma truncated_process:
  "processFile sample_format sample_app True (Some sample_truncated) s =
     Inr (True, s @ [BasicWrite (Some [97]) 14])"
  by (simp add: processFile_def processBuffer_def truncated_init
      process_sections_parse[OF truncated_parse] sample_app_def)

lemma sample_processFile:
  "processFile sample_format sample_app True (Some sample_journal) [] =
     Inr (False, [BasicWrite (Some [97]) 14, BasicWrite (Some [97]) 40])"
  by (simp add: processFile_def sample_process)

subsection \<open>The sample journal cut inside a database name\<close>

lemma cut_in_name_bytes:
  "sample_cut_in_name = [106, 10, 1, 0, 1, 0, 0, 0, 254, 255, 255, 255, 97]"
  by (simp add: sample_cut_in_name_def sample_journal_def)

lemma cut_in_name_init:
  "JournalIterator_init sample_format sample_cut_in_name =
     Inr \<lparr>it_br = \<lparr>rd_buf = sample_cut_in_name, rd_pos = 4\<rparr>, it_sectHead = None,
          it_lastDbName = None\<rparr>"
  by (simp add: journal_simps cut_in_name_bytes)

lemma cut_in_name_next:
  "JournalIterator_next sample_format
     \<lparr>it_br = \<lparr>rd_buf = sample_cut_in_name, rd_pos = 4\<rparr>, it_sectHead = None,
      it_lastDbName = None\<rparr>
   = (Inl BufReaderEof :: nat jerror + nat ParsedJournalEntry option \<times> JournalIterator)"
  by (simp add: journal_simps cut_in_name_bytes)

lemma cut_in_name_parse:
  "parse_sections sample_format
     \<lparr>it_br = \<lparr>rd_buf = sample_cut_in_name, rd_pos = 4\<rparr>, it_sectHead = None,
      it_lastDbName = None\<rparr>
   = ([], Some BufReaderEof)"
  by (simp add: parse_sections.simps read_entries.simps cut_in_name_next)

lemma cut_in_name_process:
  "processFile sample_format sample_app True (Some sample_cut_in_name) s = Inr (True, s)"
  by (simp add: processFile_def processBuffer_def cut_in_name_init
      process_sections_parse[OF cut_in_name_parse])

subsection \<open>Abrupt ends\<close>

text \<open>
  Claim C4. \<open>RecoveryJob::go\<close> processes the journal files in sequence order and
  ends with the user assertion 13535, "recover abrupt journal file end", exactly when it
  reaches a file that is not the last one and whose processing ends abruptly, the files
  before it having been processed to a section boundary. When the files before the last
  one are processed so and the last one ends abruptly, the loop ends without an
  exception, in the state the last file left. \<open>processFile\<close> reports an abrupt end
  exactly when the file's header is accepted, the reader raises \<open>BufReader::eof\<close>
  while a section is read, and the sections completed before that one have been applied
  without an exception; the state is then the one reached by applying those sections in
  order, and the entries of the section cut short are never applied.
\<close>

theorem abrupt_end_tolerated_only_on_last_file:
  fixes J :: "('op, 'x) jformat"
  shows
  "(go J app scanOnly files s = Inl (UAssert 13535) \<longleftrightarrow>
      (\<exists>i s1 s2. i + 1 < length files \<and>
         processed_cleanly J app (\<not> scanOnly) (take i files) s = Some s1 \<and>
         processFile J app (\<not> scanOnly) (files ! i) s1 = Inr (True, s2))) \<and>
   (\<forall>s1 s2. files \<noteq> [] \<and>
        processed_cleanly J app (\<not> scanOnly) (butlast files) s = Some s1 \<and>
        processFile J app (\<not> scanOnly) (last files) s1 = Inr (True, s2) \<longrightarrow>
        go_files J app (\<not> scanOnly) files s = Inr s2 \<and>
        (\<not> scanOnly \<longrightarrow> go J app scanOnly files s = Inr s2)) \<and>
   (\<forall>buf s1 s2. processFile J app (\<not> scanOnly) (Some buf) s1 = Inr (True, s2) \<longleftrightarrow>
        (\<exists>it secs. JournalIterator_init J buf = Inr it \<and>
           parse_sections J it = (secs, Some BufReaderEof) \<and>
           apply_sections app (\<not> scanOnly) secs s1 = (None, s2)))"
proof (intro conjI allI impI)
  show "go J app scanOnly files s = Inl (UAssert 13535) \<longleftrightarrow>
      (\<exists>i s1 s2. i + 1 < length files \<and>
         processed_cleanly J app (\<not> scanOnly) (take i files) s = Some s1 \<and>
         processFile J app (\<not> scanOnly) (files ! i) s1 = Inr (True, s2))"
    unfolding go_files_abrupt_iff[symmetric]
    by (cases "go_files J app (\<not> scanOnly) files s") (simp_all add: go_def)
next
  fix s1 s2
  assume a: "files \<noteq> [] \<and>
        processed_cleanly J app (\<not> scanOnly) (butlast files) s = Some s1 \<and>
        processFile J app (\<not> scanOnly) (last files) s1 = Inr (True, s2)"
  then have "files = butlast files @ [last files]" by simp
  with go_files_last[of J app "\<not> scanOnly" "butlast files" s s1 "last files" True s2] a
  show g: "go_files J app (\<not> scanOnly) files s = Inr s2" by simp
  then show "go J app scanOnly files s = Inr s2" if "\<not> scanOnly"
    using that by (simp add: go_def)
next
  fix buf s1 s2
  show "processFile J app (\<not> scanOnly) (Some buf) s1 = Inr (True, s2) \<longleftrightarrow>
        (\<exists>it secs. JournalIterator_init J buf = Inr it \<and>
           parse_sections J it = (secs, Some BufReaderEof) \<and>
           apply_sections app (\<not> scanOnly) secs s1 = (None, s2))"
    by (rule processFile_abrupt_iff)
qed

theorem abrupt_end_tolerated_only_on_last_file_witness:
  "processFile sample_format sample_app True (Some sample_truncated) [] =
     Inr (True, [BasicWrite (Some [0x61]) 14]) \<and>
   go sample_format sample_app False [Some sample_truncated, Some sample_journal] [] =
     Inl (UAssert 13535) \<and>
   processed_cleanly sample_format sample_app True [Some sample_journal] [] =
     Some [BasicWrite (Some [0x61]) 14, BasicWrite (Some [0x61]) 40] \<and>
   go sample_format sample_app False [Some sample_journal, Some sample_truncated] [] =
     Inr [BasicWrite (Some [0x61]) 14, BasicWrite (Some [0x61]) 40, BasicWrite (Some [0x61]) 14] \<and>
   processFile sample_format sample_app True (Some sample_cut_in_name)
     [BasicWrite (Some [0x61]) 14, BasicWrite (Some [0x61]) 40] =
     Inr (True, [BasicWrite (Some [0x61]) 14, BasicWrite (Some [0x61]) 40]) \<and>
   go sample_format sample_app False [Some sample_journal, Some sample_cut_in_name] [] =
     Inr [BasicWrite (Some [0x61]) 14, BasicWrite (Some [0x61]) 40] \<and>
   go sample_format sample_app False [Some sample_cut_in_name, Some sample_journal] [] =
     Inl (UAssert 13535) \<and>
   (\<exists>it secs. JournalIterator_init sample_format sample_truncated = Inr it \<and>
      parse_sections sample_format it = (secs, Some BufReaderEof) \<and>
      apply_sections sample_app True secs [] = (None, [BasicWrite (Some [0x61]) 14]))"
proof -
  let ?a = "BasicWrite (Some [0x61]) 14 :: nat ParsedJournalEntry"
  let ?b = "BasicWrite (Some [0x61]) 40 :: nat ParsedJournalEntry"
  have t0: "processFile sample_format sample_app True (Some sample_truncated) [] = Inr (True, [?a])"
    using truncated_process[of "[]"] by simp
  have t1: "processFile sample_format sample_app True (Some sample_truncated) [?a, ?b] =
      Inr (True, [?a, ?b, ?a])"
    using truncated_process[of "[?a, ?b]"] by simp
  have c: "processed_cleanly sample_format sample_app True [Some sample_journal] [] = Some [?a, ?b]"
    by (simp add: sample_processFile)
  have e: "\<exists>i s1 s2. i + 1 < length [Some sample_truncated, Some sample_journal] \<and>
       processed_cleanly sample_format sample_app (\<not> False)
         (take i [Some sample_truncated, Some sample_journal]) [] = Some s1 \<and>
       processFile sample_format sample_app (\<not> False)
         ([Some sample_truncated, Some sample_journal] ! i) s1 = Inr (True, s2)"
    by (rule exI[of _ 0]) (simp add: t0)
  note thm1 = abrupt_end_tolerated_only_on_last_file[of sample_format sample_app False
      "[Some sample_truncated, Some sample_journal]" "[]"]
  note thm2 = abrupt_end_tolerated_only_on_last_file[of sample_format sample_app False
      "[Some sample_journal, Some sample_truncated]" "[]"]
  from thm1 e have g1: "go sample_format sample_app False
      [Some sample_truncated, Some sample_journal] [] = Inl (UAssert 13535)"
    by blast
  from thm2 have "[Some sample_journal, Some sample_truncated] \<noteq> [] \<and>
        processed_cleanly sample_format sample_app (\<not> False)
          (butlast [Some sample_journal, Some sample_truncated]) [] = Some [?a, ?b] \<and>
        processFile sample_format sample_app (\<not> False)
          (last [Some sample_journal, Some sample_truncated]) [?a, ?b] = Inr (True, [?a, ?b, ?a])
        \<longrightarrow> (\<not> False \<longrightarrow> go sample_format sample_app False
               [Some sample_journal, Some sample_truncated] [] = Inr [?a, ?b, ?a])"
    by blast
  with c t1 have g2: "go sample_format sample_app False
      [Some sample_journal, Some sample_truncated] [] = Inr [?a, ?b, ?a]"
    by simp
  have t2: "processFile sample_format sample_app True (Some sample_cut_in_name) [?a, ?b] =
      Inr (True, [?a, ?b])"
    by (rule cut_in_name_process)
  note thm3 = abrupt_end_tolerated_only_on_last_file[of sample_format sample_app False
      "[Some sample_journal, Some sample_cut_in_name]" "[]"]
  from thm3 have "[Some sample_journal, Some sample_cut_in_name] \<noteq> [] \<and>
        processed_cleanly sample_format sample_app (\<not> False)
          (butlast [Some sample_journal, Some sample_cut_in_name]) [] = Some [?a, ?b] \<and>
        processFile sample_format sample_app (\<not> False)
          (last [Some sample_journal, Some sample_cut_in_name]) [?a, ?b] = Inr (True, [?a, ?b])
        \<longrightarrow> (\<not> False \<longrightarrow> go sample_format sample_app False
               [Some sample_journal, Some sample_cut_in_name] [] = Inr [?a, ?b])"
    by blast
  with c t2 have g3: "go sample_format sample_app False
      [Some sample_journal, Some sample_cut_in_name] [] = Inr [?a, ?b]"
    by simp
  have e4: "\<exists>i s1 s2. i + 1 < length [Some sample_cut_in_name, Some sample_journal] \<and>
       processed_cleanly sample_format sample_app (\<not> False)
         (take i [Some sample_cut_in_name, Some sample_journal]) [] = Some s1 \<and>
       processFile sample_format sample_app (\<not> False)
         ([Some sample_cut_in_name, Some sample_journal] ! i) s1 = Inr (True, s2)"
    by (rule exI[of _ 0]) (simp add: cut_in_name_process)
  from abrupt_end_tolerated_only_on_last_file[of sample_format sample_app False
      "[Some sample_cut_in_name, Some sample_journal]" "[]"] e4
  have g4: "go sample_format sample_app False
      [Some sample_cut_in_name, Some sample_journal] [] = Inl (UAssert 13535)"
    by blast
  from thm1 t0 have p: "\<exists>it secs. JournalIterator_init sample_format sample_truncated = Inr it \<and>
      parse_sections sample_format it = (secs, Some BufReaderEof) \<and>
      apply_sections sample_app True secs [] = (None, [?a])"
    by simp
  from t0 g1 c g2 t2 g3 g4 p show ?thesis by blast
qed

section \<open>Properties of the coordinate quantizer\<close>

subsection \<open>Rounding to the nearest double\<close>

lemma powi_less_imp_less: "(2::rat) powi a < 2 powi b \<Longrightarrow> a < b"
  using power_int_increasing[of b a "2::rat"] by (cases "a < b") auto

lemma exponent_from_lower: "e0 \<le> binary64_exponent_from e0 x"
proof (induction e0 x rule: binary64_exponent_from.induct)
  case (1 e x)
  show ?case
  proof (cases "1023 < e \<or> \<bar>x\<bar> < 2 powi (e + 1)")
    case True
    then show ?thesis by (subst binary64_exponent_from.simps) simp
  next
    case False
    with "1.IH" have "e + 1 \<le> binary64_exponent_from (e + 1) x" by simp
    with False show ?thesis by (subst binary64_exponent_from.simps) simp
  qed
qed

lemma exponent_from_upper:
  "\<bar>x\<bar> < 2 powi (K + 1) \<Longrightarrow> binary64_exponent_from e0 x \<le> max e0 K"
proof (induction e0 x rule: binary64_exponent_from.induct)
  case (1 e x)
  show ?case
  proof (cases "1023 < e \<or> \<bar>x\<bar> < 2 powi (e + 1)")
    case True
    then show ?thesis by (subst binary64_exponent_from.simps) simp
  next
    case False
    then have "2 powi (e + 1) \<le> \<bar>x\<bar>" by simp
    with "1.prems" have "(2::rat) powi (e + 1) < 2 powi (K + 1)" by simp
    then have "e < K" using powi_less_imp_less[of "e + 1" "K + 1"] by simp
    moreover from "1.IH"[OF False "1.prems"]
    have "binary64_exponent_from (e + 1) x \<le> max (e + 1) K" .
    ultimately show ?thesis using False by (subst binary64_exponent_from.simps) simp
  qed
qed

lemma exponent_from_eq:
  "e0 \<le> e \<Longrightarrow> e \<le> 1023 \<Longrightarrow> 2 powi e \<le> \<bar>x\<bar> \<Longrightarrow> \<bar>x\<bar> < 2 powi (e + 1) \<Longrightarrow>
   binary64_exponent_from e0 x = e"
proof (induction e0 x rule: binary64_exponent_from.induct)
  case (1 e0 x)
  show ?case
  proof (cases "1023 < e0 \<or> \<bar>x\<bar> < 2 powi (e0 + 1)")
    case True
    with "1.prems" have "\<bar>x\<bar> < 2 powi (e0 + 1)" by simp
    with "1.prems" have "(2::rat) powi e < 2 powi (e0 + 1)" by simp
    then have "e < e0 + 1" by (rule powi_less_imp_less)
    with "1.prems" have "e0 = e" by simp
    with True show ?thesis by (subst binary64_exponent_from.simps) simp
  next
    case False
    then have "2 powi (e0 + 1) \<le> \<bar>x\<bar>" by simp
    with "1.prems" have "(2::rat) powi (e0 + 1) < 2 powi (e + 1)" by simp
    then have "e0 + 1 < e + 1" by (rule powi_less_imp_less)
    then have "e0 + 1 \<le> e" by simp
    from "1.IH"[OF False this "1.prems"(2,3,4)] False
    show ?thesis by (subst binary64_exponent_from.simps) simp
  qed
qed

lemma round_half_even_error: "\<bar>of_int (round_half_even y) - y\<bar> \<le> 1 / 2"
proof -
  have "of_int \<lfloor>y\<rfloor> \<le> y" "y < of_int \<lfloor>y\<rfloor> + 1" by linarith+
  then show ?thesis
    by (auto simp: round_half_even_def Let_def)
qed

lemma round_half_even_nonneg: "0 \<le> y \<Longrightarrow> 0 \<le> round_half_even y"
  by (auto simp: round_half_even_def Let_def)

lemma binary64_error:
  assumes "- 1022 \<le> K" "\<bar>x\<bar> < 2 powi (K + 1)"
  shows "\<bar>binary64 x - x\<bar> \<le> 2 powi (K - 53)"
proof -
  define E where "E = binary64_exponent x"
  define ulp :: rat where "ulp = 2 powi (E - 52)"
  have "E \<le> K"
    using exponent_from_upper[OF assms(2), of "- 1022"] assms(1)
    by (simp add: E_def binary64_exponent_def)
  then have "ulp \<le> 2 powi (K - 52)"
    unfolding ulp_def by (intro power_int_increasing) auto
  moreover have "(2::rat) powi (K - 52) = 2 * 2 powi (K - 53)"
    using power_int_add_1'[of "2::rat" "K - 53"] by (simp add: algebra_simps)
  ultimately have u: "ulp / 2 \<le> 2 powi (K - 53)" by simp
  have pos: "0 < ulp" by (simp add: ulp_def)
  have "binary64 x - x = (of_int (round_half_even (x / ulp)) - x / ulp) * ulp"
    using pos by (simp add: binary64_def Let_def E_def ulp_def algebra_simps)
  then have "\<bar>binary64 x - x\<bar> = \<bar>of_int (round_half_even (x / ulp)) - x / ulp\<bar> * ulp"
    using pos by (simp add: abs_mult)
  also have "\<dots> \<le> (1 / 2) * ulp"
    using pos round_half_even_error[of "x / ulp"] by (intro mult_right_mono) auto
  finally show ?thesis using u by simp
qed

lemma binary64_nonneg: "0 \<le> x \<Longrightarrow> 0 \<le> binary64 x"
  by (simp add: binary64_def Let_def round_half_even_nonneg)

lemma binary64_eq:
  assumes "- 1022 \<le> e" "e \<le> 1023" "2 powi e \<le> \<bar>x\<bar>" "\<bar>x\<bar> < 2 powi (e + 1)"
  shows "binary64 x = of_int (round_half_even (x / 2 powi (e - 52))) * 2 powi (e - 52)"
  using exponent_from_eq[OF assms]
  by (simp add: binary64_def binary64_exponent_def Let_def)

lemma powi_step: "(2::rat) powi (e + 1) = 2 * 2 powi e"
  using power_int_add_1'[of "2::rat" e] by simp

lemma powi_steps:
  "(2::rat) powi (k + 2) = 4 * 2 powi k"
  "(2::rat) powi (k + 3) = 8 * 2 powi k"
  "(2::rat) powi k = 4503599627370496 * 2 powi (k - 52)"
proof -
  show "(2::rat) powi (k + 2) = 4 * 2 powi k"
    using power_int_add[of "2::rat" k 2] by simp
  show "(2::rat) powi (k + 3) = 8 * 2 powi k"
    using power_int_add[of "2::rat" k 3] by simp
  show "(2::rat) powi k = 4503599627370496 * 2 powi (k - 52)"
    using power_int_add[of "2::rat" "k - 52" 52] by simp
qed

lemma binary64_eval:
  assumes "- 1022 \<le> e" "e \<le> 1023" "2 powi e \<le> \<bar>x\<bar>" "\<bar>x\<bar> < 2 powi (e + 1)"
    and "round_half_even (x / 2 powi (e - 52)) = n"
  shows "binary64 x = of_int n * 2 powi (e - 52)"
  using binary64_eq[OF assms(1-4)] assms(5) by simp

lemma floor_divide_numeral_rat:
  "\<lfloor>numeral a / numeral b :: rat\<rfloor> = numeral a div numeral b"
  by (metis floor_divide_of_int_eq of_int_numeral)

lemmas binary64_simps = round_half_even_def Let_def floor_divide_numeral_rat

lemma binary64_zero: "binary64 0 = 0"
  by (simp add: binary64_def round_half_even_def Let_def)

lemma binary64_360: "binary64 360 = 360"
  using binary64_eval[of 8 360 6333186975989760]
  by (simp add: binary64_simps)

lemma sample_scaling: "binary64 (4294967296 / 360) = 6405119470038039 / 536870912"
  using binary64_eval[of 23 "4294967296 / 360" 6405119470038039]
  by (simp add: binary64_simps)

lemma sample_geo_init: "Geo2dType_init (- 180) 180 = Some sample_geo"
proof -
  have "binary64 (536870912 / 45) = 6405119470038039 / 536870912"
    using sample_scaling by simp
  then show ?thesis
    by (simp add: Geo2dType_init_def Let_def binary64_360 sample_geo_def)
qed

lemma binary64_below_180: "binary64 (180 - 1 / 2 ^ 60) = 180"
  using binary64_eval[of 7 "180 - 1 / 2 ^ 60" 6333186975989760]
  by (simp add: binary64_simps)

lemma binary64_180: "binary64 180 = 180"
  using binary64_eval[of 7 180 6333186975989760]
  by (simp add: binary64_simps)

lemma binary64_product: "binary64 (180 * (6405119470038039 / 536870912)) = 2147483648"
  using binary64_eval[of 31 "180 * (6405119470038039 / 536870912)" 4503599627370496]
  by (simp add: binary64_simps)

lemma binary64_quotient: "binary64 (2147483648 / (6405119470038039 / 536870912)) = 180"
  using binary64_eval[of 7 "2147483648 / (6405119470038039 / 536870912)" 6333186975989760]
  by (simp add: binary64_simps)

lemma convert_below_zero: "convert sample_geo (- (1 / 2 ^ 60)) = Inr 2147483648"
  using binary64_below_180 binary64_product
  by (simp add: convert_def sample_geo_def Let_def)

lemma convert_zero: "convert sample_geo 0 = Inr 2147483648"
  using binary64_180 binary64_product
  by (simp add: convert_def sample_geo_def Let_def)

lemma unconvert_half: "unconvert sample_geo 2147483648 = 0"
  using binary64_quotient binary64_zero
  by (simp add: unconvert_def sample_geo_def Let_def)

lemma binary64_below_360: "binary64 (360 - 1 / 2 ^ 45) = 360"
  using binary64_eval[of 8 "360 - 1 / 2 ^ 45" 6333186975989760]
  by (simp add: binary64_simps)

lemma binary64_product_max: "binary64 (360 * (6405119470038039 / 536870912)) = 4294967296"
  using binary64_eval[of 32 "360 * (6405119470038039 / 536870912)" 4503599627370496]
  by (simp add: binary64_simps)

lemma convert_overflows_below_max: "convert sample_geo (180 - 1 / 2 ^ 45) = Inl OutOfRange"
  using binary64_below_360 binary64_product_max
  by (simp add: convert_def sample_geo_def Let_def)

lemma binary64_tiny: "binary64 (- (1 / 2 ^ 60)) = - (1 / 2 ^ 60)"
  using binary64_eval[of "- 60" "- (1 / 2 ^ 60)" "- 4503599627370496"]
  by (simp add: binary64_simps)

lemma binary64_below_max: "binary64 (180 - 1 / 2 ^ 45) = 180 - 1 / 2 ^ 45"
  using binary64_eval[of 7 "180 - 1 / 2 ^ 45" 6333186975989759]
  by (simp add: binary64_simps)

lemma binary64_sum: "binary64 (451 / 2) = 451 / 2"
  using binary64_eval[of 7 "451 / 2" 7934075906031616]
  by (simp add: binary64_simps)

lemma binary64_product2:
  "binary64 (2888708880987155589 / 1073741824) = 2821004766589019 / 1048576"
  using binary64_eval[of 31 "2888708880987155589 / 1073741824" 5642009533178038]
  by (simp add: binary64_simps)

lemma binary64_quotient2:
  "binary64 (481451480100896768 / 2135039823346013) = 7566524415 / 33554432"
  using binary64_eval[of 7 "481451480100896768 / 2135039823346013" 7934075904983040]
  by (simp add: binary64_simps)

lemma binary64_difference2:
  "binary64 (1526726655 / 33554432) = 1526726655 / 33554432"
  using binary64_eval[of 5 "1526726655 / 33554432" 6403555715973120]
  by (simp add: binary64_simps)

lemma convert_sample: "convert sample_geo (91 / 2) = Inr 2690319792"
  by (simp add: convert_def sample_geo_def Let_def binary64_sum binary64_product2
      floor_divide_numeral_rat)

lemma unconvert_sample: "unconvert sample_geo 2690319792 = 1526726655 / 33554432"
  by (simp add: unconvert_def sample_geo_def Let_def binary64_quotient2 binary64_difference2)

subsection \<open>The round trip\<close>

text \<open>
  Claim C7, as stated, fails. In the default index, whose \<open>_scaling\<close> is the double
  nearest to \<open>2^32 / 360\<close>, the coordinate \<open>v = -2^-60\<close> (a double, within
  \<open>[-180, 180)\<close>) is quantized to \<open>2^31\<close>: \<open>v - _min\<close> rounds to \<open>180\<close> and
  the product with \<open>_scaling\<close> rounds to \<open>2^31\<close>. \<open>_unconvert\<close> returns \<open>0\<close> for
  it, which is greater than \<open>v\<close>.
\<close>

theorem quantize_round_trip_exceeds_value:
  "Geo2dType_init (- 180) 180 = Some sample_geo \<and>
   binary64 (- (1 / 2 ^ 60)) = - (1 / 2 ^ 60) \<and>
   g_min sample_geo \<le> - (1 / 2 ^ 60) \<and> - (1 / 2 ^ 60) < g_max sample_geo \<and>
   convert sample_geo (- (1 / 2 ^ 60)) = Inr 2147483648 \<and>
   unconvert sample_geo 2147483648 = 0 \<and>
   \<not> unconvert sample_geo 2147483648 \<le> - (1 / 2 ^ 60)"
  using sample_geo_init binary64_tiny convert_below_zero unconvert_half
  by (simp add: sample_geo_def)

text \<open>
  Next to the upper end of the interval the product rounds to \<open>2^32\<close>, which is no
  \<open>unsigned\<close>: for the largest double below \<open>180\<close>, \<open>v - _min\<close> rounds to \<open>360\<close>
  and \<open>360 * _scaling\<close> to \<open>2^32\<close>.
\<close>

lemma convert_below_max_out_of_range:
  "binary64 (180 - 1 / 2 ^ 45) = 180 - 1 / 2 ^ 45 \<and>
   g_min sample_geo \<le> 180 - 1 / 2 ^ 45 \<and> 180 - 1 / 2 ^ 45 < g_max sample_geo \<and>
   convert sample_geo (180 - 1 / 2 ^ 45) = Inl OutOfRange"
  using binary64_below_max convert_overflows_below_max
  by (simp add: sample_geo_def)

text \<open>
  Claim C7, amended. Let \<open>\<bar>_min\<bar>\<close> and \<open>\<bar>_max\<bar>\<close> be at most \<open>2^k\<close>, \<open>_scaling\<close> at
  least \<open>2^(30-k)\<close> and \<open>(_max - _min + 2^(k-52)) * _scaling\<close> below \<open>2^33\<close>, as they
  are for the default index with \<open>k = 8\<close>. For a coordinate \<open>v\<close> with
  \<open>_min \<le> v < _max\<close>, \<open>_convert\<close> returns when the product, computed in doubles, is
  below \<open>2^32\<close>; what it returns is the floor of that product, the double nearest to
  \<open>(v - _min) * _scaling\<close> with \<open>v - _min\<close> itself rounded to a double;
  \<open>_unconvert\<close> returns \<open>u / _scaling + _min\<close> with the quotient and the sum each
  rounded to a double; and the round trip lies in
  \<open>[v - 1/_scaling - \<epsilon>, v + \<epsilon>]\<close> for \<open>\<epsilon> = 2^(k-50) + 2^-21 / _scaling\<close>, the
  bound on what the four roundings add. A product that rounds to \<open>2^32\<close> or more is
  left aside.
\<close>

theorem quantize_round_trip_binary64:
  assumes k: "- 1000 \<le> k" "k \<le> 1000"
    and mn: "\<bar>g_min g\<bar> \<le> 2 powi k" and mx: "\<bar>g_max g\<bar> \<le> 2 powi k"
    and sc: "2 powi (30 - k) \<le> g_scaling g"
    and wd: "(g_max g - g_min g + 2 powi (k - 52)) * g_scaling g < 2 powi 33"
    and lo: "g_min g \<le> v" and hi: "v < g_max g"
  shows "(binary64 (binary64 (v - g_min g) * g_scaling g) < 4294967296 \<longrightarrow>
           (\<exists>u. convert g v = Inr u)) \<and>
         (\<forall>u. convert g v = Inr u \<longrightarrow>
            uint u = \<lfloor>binary64 (binary64 (v - g_min g) * g_scaling g)\<rfloor> \<and>
            unconvert g u = binary64 (binary64 (of_int (uint u) / g_scaling g) + g_min g) \<and>
            v - 1 / g_scaling g - (2 powi (k - 50) + 1 / (2097152 * g_scaling g))
              \<le> unconvert g u \<and>
            unconvert g u \<le> v + (2 powi (k - 50) + 1 / (2097152 * g_scaling g)))"
proof -
  define m where "m = g_min g"
  define s where "s = g_scaling g"
  define e0 :: rat where "e0 = 2 powi (k - 52)"
  define B :: rat where "B = 2 powi k"
  define d where "d = v - m"
  define a where "a = binary64 d"
  define p where "p = binary64 (a * s)"
  have e0_pos: "0 < e0" by (simp add: e0_def)
  have B_e0: "B = 4503599627370496 * e0" unfolding B_def e0_def by (rule powi_steps(3))
  have K1: "(2::rat) powi (k + 1 + 1) = 4 * B"
  proof -
    have "k + 1 + 1 = k + 2" by simp
    then show ?thesis by (simp only: powi_steps(1) B_def)
  qed
  have K2: "(2::rat) powi (k + 2 + 1) = 8 * B"
  proof -
    have "k + 2 + 1 = k + 3" by simp
    then show ?thesis by (simp only: powi_steps(2) B_def)
  qed
  have E1: "(2::rat) powi (k + 1 - 53) = e0"
  proof -
    have "k + 1 - 53 = k - 52" by simp
    then show ?thesis by (simp only: e0_def)
  qed
  have E2: "(2::rat) powi (k + 2 - 53) = 2 * e0"
  proof -
    have "k + 2 - 53 = (k - 52) + 1" by simp
    then show ?thesis by (simp only: e0_def powi_step)
  qed
  have kk: "- 1022 \<le> k + 1" "- 1022 \<le> k + 2" using k by simp_all
  have s_pos: "0 < s"
  proof -
    have "(0::rat) < 2 powi (30 - k)" by simp
    from this sc show ?thesis unfolding s_def by (rule less_le_trans)
  qed
  have d0: "0 \<le> d" using lo by (simp add: d_def m_def)
  have d_le: "d < g_max g - m" using hi by (simp add: d_def)
  have width: "g_max g - m \<le> 2 * B" using mn mx unfolding m_def B_def by linarith
  have a0: "0 \<le> a" unfolding a_def using d0 by (rule binary64_nonneg)
  have ea: "\<bar>a - d\<bar> \<le> e0"
  proof -
    have "\<bar>d\<bar> < 4 * B" using d0 d_le width B_e0 e0_pos by linarith
    then have "\<bar>d\<bar> < 2 powi (k + 1 + 1)" by (simp only: K1)
    from binary64_error[OF kk(1) this] show ?thesis by (simp only: a_def E1)
  qed
  have as_lt: "a * s < 2 powi 33"
  proof -
    have "a \<le> g_max g - m + e0" using ea d_le by linarith
    then have "a * s \<le> (g_max g - m + e0) * s" using s_pos by (intro mult_right_mono) auto
    with wd show ?thesis by (simp add: m_def s_def e0_def)
  qed
  have as0: "0 \<le> a * s" using a0 s_pos by simp
  have p0: "0 \<le> p" unfolding p_def using as0 by (rule binary64_nonneg)
  have ep: "\<bar>p - a * s\<bar> \<le> 1 / 2097152"
  proof -
    have "\<bar>a * s\<bar> < 2 powi (32 + 1)" using as_lt as0 by simp
    from binary64_error[OF _ this] show ?thesis by (simp add: p_def)
  qed
  have conv: "convert g v = (if 4294967296 \<le> p then Inl OutOfRange else Inr (word_of_int \<lfloor>p\<rfloor>))"
    using lo hi a0 p0
    by (simp add: convert_def Let_def a_def[symmetric] d_def[symmetric] m_def[symmetric]
        s_def[symmetric] p_def[symmetric])
  have first: "binary64 (binary64 (v - g_min g) * g_scaling g) < 4294967296 \<longrightarrow>
           (\<exists>u. convert g v = Inr u)"
    using conv by (simp add: p_def a_def d_def m_def s_def)
  have second: "uint u = \<lfloor>binary64 (binary64 (v - g_min g) * g_scaling g)\<rfloor> \<and>
            unconvert g u = binary64 (binary64 (of_int (uint u) / g_scaling g) + g_min g) \<and>
            v - 1 / g_scaling g - (2 powi (k - 50) + 1 / (2097152 * g_scaling g))
              \<le> unconvert g u \<and>
            unconvert g u \<le> v + (2 powi (k - 50) + 1 / (2097152 * g_scaling g))"
    if cu: "convert g v = Inr u" for u
  proof -
    from cu conv have p_lt: "p < 4294967296" and u: "u = word_of_int \<lfloor>p\<rfloor>"
      by (auto split: if_splits)
    have fl0: "0 \<le> \<lfloor>p\<rfloor>" using p0 by simp
    have fl_lt: "\<lfloor>p\<rfloor> < 4294967296" using p_lt by (simp add: floor_less_iff)
    have uint_u: "uint u = \<lfloor>p\<rfloor>"
      unfolding u using fl0 fl_lt by (simp add: uint_word_of_int take_bit_int_eq_self)
    define U :: rat where "U = of_int \<lfloor>p\<rfloor>"
    have unat_u: "(of_nat (unat u) :: rat) = U"
      using uint_u fl0 by (simp add: U_def unat_eq_nat_uint)
    have U_le: "U \<le> p" and U_gt: "p - 1 < U" unfolding U_def by linarith+
    have U0: "0 \<le> U" using fl0 by (simp add: U_def)
    define q where "q = U / s"
    define x1 where "x1 = binary64 q"
    define r where "r = binary64 (x1 + m)"
    have unc: "unconvert g u = r"
      unfolding unconvert_def Let_def unat_u r_def x1_def q_def s_def m_def ..
    have q0: "0 \<le> q" using U0 s_pos by (simp add: q_def)
    have q_lt: "q < 4 * B"
    proof -
      have "U < 4294967296" using U_le p_lt by simp
      then have "q < 4294967296 / s" using s_pos by (simp add: q_def divide_strict_right_mono)
      also have "4294967296 / s \<le> 4294967296 / 2 powi (30 - k)"
        using sc s_pos by (intro divide_left_mono) (simp_all add: s_def)
      also have "4294967296 / 2 powi (30 - k) = (2::rat) powi (32 - (30 - k))"
        by (subst power_int_diff) simp_all
      also have "\<dots> = 4 * B"
      proof -
        have "32 - (30 - k) = k + 2" by simp
        then show ?thesis by (simp only: powi_steps(1) B_def)
      qed
      finally show ?thesis .
    qed
    have ex: "\<bar>x1 - q\<bar> \<le> e0"
    proof -
      have "\<bar>q\<bar> < 4 * B" using q0 q_lt by linarith
      then have "\<bar>q\<bar> < 2 powi (k + 1 + 1)" by (simp only: K1)
      from binary64_error[OF kk(1) this] show ?thesis by (simp only: x1_def E1)
    qed
    have er: "\<bar>r - (x1 + m)\<bar> \<le> 2 * e0"
    proof -
      have "\<bar>x1 + m\<bar> \<le> \<bar>x1\<bar> + \<bar>m\<bar>" by simp
      also have "\<bar>x1\<bar> \<le> q + e0" using ex q0 by linarith
      also have "\<bar>m\<bar> \<le> B" using mn by (simp add: m_def B_def)
      finally have "\<bar>x1 + m\<bar> \<le> q + e0 + B" by simp
      also have "\<dots> < 8 * B" using q_lt B_e0 e0_pos by linarith
      finally have "\<bar>x1 + m\<bar> < 8 * B" .
      then have "\<bar>x1 + m\<bar> < 2 powi (k + 2 + 1)" by (simp only: K2)
      from binary64_error[OF kk(2) this] show ?thesis by (simp only: r_def E2)
    qed
    have p_up: "p / s \<le> a + 1 / (2097152 * s)"
    proof -
      have "p \<le> a * s + 1 / 2097152" using ep by linarith
      then have "p / s \<le> (a * s + 1 / 2097152) / s" using s_pos by (simp add: divide_right_mono)
      also have "\<dots> = a + 1 / (2097152 * s)" using s_pos by (simp add: field_simps)
      finally show ?thesis .
    qed
    have p_lo: "a - 1 / s - 1 / (2097152 * s) < q"
    proof -
      have "a * s - 1 / 2097152 - 1 < U" using ep U_gt by linarith
      then have "(a * s - 1 / 2097152 - 1) / s < U / s"
        using s_pos by (simp add: divide_strict_right_mono)
      moreover have "(a * s - 1 / 2097152 - 1) / s = a - 1 / s - 1 / (2097152 * s)"
        using s_pos by (simp add: field_simps)
      ultimately show ?thesis by (simp add: q_def)
    qed
    have q_up: "q \<le> p / s" using U_le s_pos by (simp add: q_def divide_right_mono)
    have four: "(2::rat) powi (k - 50) = 4 * e0"
    proof -
      have "k - 50 = (k - 52) + 2" by simp
      then show ?thesis by (simp only: e0_def powi_steps(1))
    qed
    have upper: "r \<le> v + (4 * e0 + 1 / (2097152 * s))"
      using er ex ea q_up p_up d_def by linarith
    have lower: "v - 1 / s - (4 * e0 + 1 / (2097152 * s)) \<le> r"
      using er ex ea p_lo d_def by linarith
    show ?thesis
      using uint_u unc upper lower four
      by (simp add: p_def a_def d_def m_def s_def r_def x1_def q_def U_def)
  qed
  from first second show ?thesis by blast
qed

theorem quantize_round_trip_binary64_witness:
  "- 1000 \<le> (8 :: int) \<and> (8 :: int) \<le> 1000 \<and>
   \<bar>g_min sample_geo\<bar> \<le> 2 powi 8 \<and> \<bar>g_max sample_geo\<bar> \<le> 2 powi 8 \<and>
   2 powi (30 - 8) \<le> g_scaling sample_geo \<and>
   (g_max sample_geo - g_min sample_geo + 2 powi (8 - 52)) * g_scaling sample_geo < 2 powi 33 \<and>
   g_min sample_geo \<le> 91 / 2 \<and> 91 / 2 < g_max sample_geo \<and>
   convert sample_geo (91 / 2) = Inr 2690319792 \<and>
   unconvert sample_geo 2690319792 = 1526726655 / 33554432 \<and>
   91 / 2 - 1 / g_scaling sample_geo - (2 powi (8 - 50) + 1 / (2097152 * g_scaling sample_geo))
     \<le> unconvert sample_geo 2690319792 \<and>
   unconvert sample_geo 2690319792
     \<le> 91 / 2 + (2 powi (8 - 50) + 1 / (2097152 * g_scaling sample_geo))"
proof -
  have h: "\<bar>g_min sample_geo\<bar> \<le> 2 powi 8" "\<bar>g_max sample_geo\<bar> \<le> 2 powi 8"
    "2 powi (30 - 8) \<le> g_scaling sample_geo"
    "(g_max sample_geo - g_min sample_geo + 2 powi (8 - 52)) * g_scaling sample_geo < 2 powi 33"
    "g_min sample_geo \<le> 91 / 2" "91 / 2 < g_max sample_geo"
    by (simp_all add: sample_geo_def)
  from quantize_round_trip_binary64[of 8 sample_geo "91 / 2", OF _ _ h] convert_sample
  have "91 / 2 - 1 / g_scaling sample_geo
          - (2 powi (8 - 50) + 1 / (2097152 * g_scaling sample_geo))
        \<le> unconvert sample_geo 2690319792 \<and>
      unconvert sample_geo 2690319792
        \<le> 91 / 2 + (2 powi (8 - 50) + 1 / (2097152 * g_scaling sample_geo))"
    by simp
  with h convert_sample unconvert_sample show ?thesis by simp
qed

section \<open>The nearest-point holder under the geoNear command\<close>

text \<open>
  Claim C1. The claim holds for a positive count (\<open>nearest_result_set\<close> above), and
  \<open>newCursor\<close> makes the count of a \<open>$near\<close> query positive. The \<open>geoNear\<close> command
  does not: it takes \<open>num\<close> as it is. With \<open>num = 0\<close> the first key that passes the
  approximate check has its point inserted and erased again, since \<open>numToErase\<close> is 1,
  and \<open>_farthest = boost::next(_points.end(), -1)->_exactDistance\<close> then reads the
  last element of an empty set. With \<open>num = -1\<close> the \<open>unsigned\<close> \<open>_max\<close> is
  \<open>2^32 - 1\<close>, \<open>numToErase\<close> is 2, and the second \<open>erase\<close> is on the empty set.
  The query returns no result set in either case.
\<close>

theorem geoNear_count_zero_reads_past_end:
  "hopper_run sample_env sample_nodes
     (geoNear_hopper sample_env (Some 0) (mkPoint 50 50) (Some 10) False) = Inl OutOfRange \<and>
   hopper_run sample_env sample_nodes
     (geoNear_hopper sample_env (Some (- 1)) (mkPoint 50 50) (Some 10) False) = Inl OutOfRange \<and>
   (\<exists>st. hopper_run sample_env sample_nodes
      (geoNear_hopper sample_env None (mkPoint 50 50) (Some 10) False) = Inr st \<and>
      map gp_loc (h_points st) = [1, 2, 3])"
  by (simp add: geoNear_hopper_def sample_simps numeral_2_eq_2)

end
